theory Spec2Isabelle
  imports Main "HOL-Library.Monad_Syntax"
begin

section \<open>The assemble subprogram of SGA: convert read overlaps into contigs\<close>

text \<open>
  The source file embedded here defines three functions: \<open>assembleMain\<close>,
  \<open>assemble\<close> and \<open>parseAssembleOptions\<close>, and the option namespace \<open>opt\<close>.
  The string graph, its visitors and \<open>getopt_long\<close> live in other files, so they
  enter the model as parameters. Whatever the program does to the graph or to the
  console is recorded as an event, in program order. Calls into those other files are
  taken to return: a graph file that cannot be read or an assertion inside a visitor
  ends the process in code that is not part of this file. The \<open>Timer\<close> objects and
  the constructors and destructors of the visitor functors leave no event.
\<close>

subsection \<open>Build configuration (config.h)\<close>

record build_config =
  PACKAGE_NAME :: string
  PACKAGE_VERSION :: string
  PACKAGE_BUGREPORT :: string
  VALIDATE :: bool  \<comment> \<open>whether the macro VALIDATE is defined\<close>

definition SUBPROGRAM :: string where
  "SUBPROGRAM = ''assemble''"

definition ASSEMBLE_VERSION_MESSAGE :: "build_config \<Rightarrow> string" where
  "ASSEMBLE_VERSION_MESSAGE cfg =
     SUBPROGRAM @ '' Version '' @ PACKAGE_VERSION cfg @ ''\<newline>'' @
     ''Written by Jared Simpson.\<newline>'' @
     ''\<newline>'' @
     ''Copyright 2009 Wellcome Trust Sanger Institute\<newline>''"

definition ASSEMBLE_USAGE_MESSAGE :: "build_config \<Rightarrow> string" where
  "ASSEMBLE_USAGE_MESSAGE cfg =
     ''Usage: '' @ PACKAGE_NAME cfg @ '' '' @ SUBPROGRAM @ '' [OPTION] ... ASQGFILE\<newline>'' @
     ''Create contigs from the assembly graph ASQGFILE.\<newline>'' @
     ''\<newline>'' @
     ''  -v, --verbose                        display verbose output\<newline>'' @
     ''      --help                           display this help and exit\<newline>'' @
     ''      -o, --out=FILE                   write the contigs to FILE (default: contigs.fa)\<newline>'' @
     ''      -m, --min-overlap=LEN            only use overlaps of at least LEN. This can be used to filter\<newline>'' @
     ''                                       the overlap set so that the overlap step only needs to be run once.\<newline>'' @
     ''      -b, --bubble=N                   perform N bubble removal steps\<newline>'' @
     ''      -s, --smooth                     perform variation smoothing algorithm\<newline>'' @
     ''      -t, --trim=N                     trim terminal branches using N rounds\<newline>'' @
     ''      -r,--resolve-small=LEN           resolve small repeats using spanning overlaps when the difference between the shortest\<newline>'' @
     ''                                       and longest overlap is greater than LEN\<newline>'' @
     ''      -a, --asqg-outfile=FILE          write the final graph to FILE\<newline>'' @
     ''\<newline>Report bugs to '' @ PACKAGE_BUGREPORT cfg @ ''\<newline>\<newline>''"

subsection \<open>The option namespace\<close>

record options =
  verbose :: nat
  asqgFile :: string
  prefix :: string
  outFile :: string
  debugFile :: string
  asqgOutfile :: string
  minOverlap :: nat
  bEdgeStats :: bool
  bCorrectReads :: bool
  bRemodelGraph :: bool
  bSmoothGraph :: bool
  resolveSmallRepeatLen :: int
  numTrimRounds :: int
  numBubbleRounds :: int
  bValidate :: bool
  bExact :: bool

text \<open>
  The values of the statics when the program starts: the initialisers written in the
  namespace, and zero-initialisation for the ones without (\<open>verbose\<close>, \<open>minOverlap\<close>,
  \<open>bValidate\<close>, the strings). The two \<open>unsigned int\<close> fields are natural numbers and
  the three \<open>int\<close> fields are integers: the program only increments \<open>verbose\<close> once per
  \<open>-v\<close> and compares the others with 0, so no arithmetic on them can wrap.
\<close>

definition static_opt :: options where
  "static_opt =
     \<lparr> verbose = 0, asqgFile = [], prefix = [], outFile = [], debugFile = [],
       asqgOutfile = [], minOverlap = 0, bEdgeStats = False, bCorrectReads = False,
       bRemodelGraph = False, bSmoothGraph = False, resolveSmallRepeatLen = - 1,
       numTrimRounds = 0, numBubbleRounds = 0, bValidate = False, bExact = False \<rparr>"

subsection \<open>Visitors and events\<close>

text \<open>The visitor functors that \<open>assemble\<close> hands to \<open>StringGraph::visit\<close>.\<close>

datatype visitor =
    TransitiveReduction
  | GraphStats
  | Remodel
  | EdgeStats
  | Trim
  | Bubble
  | BubbleEdge
  | ContainRemove
  | ErrorCorrect
  | ValidateStructure
  | PairedPathResolve
  | DebugGraphCompare string
  | Fasta string
  | Smoothing
  | SmallRepeatResolve int

datatype event =
    EvCout string
  | EvCerr string
  | EvLoadASQG string nat bool
  | EvSetExactMode bool
  | EvPrintMemSize
  | EvVisit visitor
  | EvWriteASQG string
  | EvWarnOnce string
  | EvSimplify
  | EvValidationWarning string
  | EvValidate
  | EvRenameVertices string
  | EvWriteDot string
  | EvDeleteGraph

text \<open>
  The operations of \<open>StringGraph\<close> and \<open>SGUtil\<close> that change or query the graph.
  The type \<open>'g\<close> is the state of the graph object (with whatever state the visitor
  functors carry). \<open>visit\<close> returns the changed-flag and the graph after the visit.
\<close>

record 'g graph_ops =
  loadASQG :: "string \<Rightarrow> nat \<Rightarrow> bool \<Rightarrow> 'g"
  setExactMode :: "bool \<Rightarrow> 'g \<Rightarrow> 'g"
  hasContainment :: "'g \<Rightarrow> bool"
  visit :: "visitor \<Rightarrow> 'g \<Rightarrow> bool \<times> 'g"
  simplify :: "'g \<Rightarrow> 'g"
  renameVertices :: "string \<Rightarrow> 'g \<Rightarrow> 'g"

text \<open>
  The state of a run of \<open>assemble\<close>: the graph behind \<open>pGraph\<close>, and the trace so far.
  Each trace entry pairs an event with the graph as it is when the event starts (for the
  load event: the graph that was loaded).
\<close>

record 'g run_state =
  graph :: 'g
  trace :: "('g \<times> event) list"

definition emit :: "event \<Rightarrow> 'g run_state \<Rightarrow> 'g run_state" where
  "emit e s = s\<lparr>trace := trace s @ [(graph s, e)]\<rparr>"

definition cout :: "string \<Rightarrow> 'g run_state \<Rightarrow> 'g run_state" where
  "cout msg s = emit (EvCout msg) s"

text \<open>\<open>pGraph->visit(v)\<close>, with its return value.\<close>

definition visit_flag :: "'g graph_ops \<Rightarrow> visitor \<Rightarrow> 'g run_state \<Rightarrow> bool \<times> 'g run_state" where
  "visit_flag ops v s =
     (fst (visit ops v (graph s)),
      \<lparr> graph = snd (visit ops v (graph s)), trace = trace s @ [(graph s, EvVisit v)] \<rparr>)"

text \<open>\<open>pGraph->visit(v);\<close> as a statement: the return value is dropped.\<close>

definition do_visit :: "'g graph_ops \<Rightarrow> visitor \<Rightarrow> 'g run_state \<Rightarrow> 'g run_state" where
  "do_visit ops v s = snd (visit_flag ops v s)"

definition writeASQG :: "string \<Rightarrow> 'g run_state \<Rightarrow> 'g run_state" where
  "writeASQG file s = emit (EvWriteASQG file) s"

definition do_simplify :: "'g graph_ops \<Rightarrow> 'g run_state \<Rightarrow> 'g run_state" where
  "do_simplify ops s =
     \<lparr> graph = simplify ops (graph s), trace = trace s @ [(graph s, EvSimplify)] \<rparr>"

subsection \<open>The stages of assemble, in source order\<close>

text \<open>Lines 108-112: load the graph, set exact mode, print the memory size.\<close>

definition load_graph :: "'g graph_ops \<Rightarrow> options \<Rightarrow> 'g run_state" where
  "load_graph ops opt =
     (let g = loadASQG ops (asqgFile opt) (minOverlap opt) True;
          s = \<lparr> graph = g, trace = [(g, EvLoadASQG (asqgFile opt) (minOverlap opt) True)] \<rparr>;
          s = (if bExact opt
               then \<lparr> graph = setExactMode ops True (graph s),
                      trace = trace s @ [(graph s, EvSetExactMode True)] \<rparr>
               else s)
      in emit EvPrintMemSize s)"

text \<open>Lines 128-148: the debug-file comparison.\<close>

definition debug_compare :: "'g graph_ops \<Rightarrow> options \<Rightarrow> 'g run_state \<Rightarrow> 'g run_state" where
  "debug_compare ops opt s =
     (if debugFile opt \<noteq> []
      then (let s = cout ''Initial graph stats\<newline>'' s;
                s = do_visit ops GraphStats s;
                s = do_visit ops (DebugGraphCompare (debugFile opt)) s
            in do_visit ops GraphStats s)
      else s)"

text \<open>Lines 150-158: edge statistics, and the pre-assembly graph statistics.\<close>

definition edge_stats :: "'g graph_ops \<Rightarrow> options \<Rightarrow> 'g run_state \<Rightarrow> 'g run_state" where
  "edge_stats ops opt s =
     (if bEdgeStats opt
      then do_visit ops EdgeStats (cout ''Computing edge stats\<newline>'' s)
      else s)"

definition initial_stats :: "'g graph_ops \<Rightarrow> 'g run_state \<Rightarrow> 'g run_state" where
  "initial_stats ops s = do_visit ops GraphStats (cout ''Initial graph stats\<newline>'' s)"

text \<open>
  Lines 160-165: remove containments. The loop runs for as long as the graph reports a
  containment, so it need not end: not returning is the value \<open>None\<close>.
\<close>

partial_function (option) contain_loop :: "'g graph_ops \<Rightarrow> 'g run_state \<Rightarrow> 'g run_state option" where
  "contain_loop ops s =
     (if hasContainment ops (graph s)
      then contain_loop ops (do_visit ops ContainRemove s)
      else Some s)"

declare contain_loop.simps [code]

definition remove_containments :: "'g graph_ops \<Rightarrow> 'g run_state \<Rightarrow> 'g run_state option" where
  "remove_containments ops s = contain_loop ops (cout ''Removing contained vertices\<newline>'' s)"

text \<open>Lines 167-173: statistics, then one pass of transitive reduction.\<close>

definition post_contain_stats :: "'g graph_ops \<Rightarrow> 'g run_state \<Rightarrow> 'g run_state" where
  "post_contain_stats ops s = do_visit ops GraphStats (cout ''Post-contain graph stats\<newline>'' s)"

definition transitive_reduction :: "'g graph_ops \<Rightarrow> 'g run_state \<Rightarrow> 'g run_state" where
  "transitive_reduction ops s =
     do_visit ops TransitiveReduction (cout ''Removing transitive edges\<newline>'' s)"

text \<open>Lines 178-188: the optional structure validation, and statistics.\<close>

definition validate_structure :: "'g graph_ops \<Rightarrow> options \<Rightarrow> 'g run_state \<Rightarrow> 'g run_state" where
  "validate_structure ops opt s =
     (if bValidate opt
      then do_visit ops ValidateStructure (cout ''Validating graph structure\<newline>'' s)
      else s)"

definition pre_remodel_stats :: "'g graph_ops \<Rightarrow> 'g run_state \<Rightarrow> 'g run_state" where
  "pre_remodel_stats ops s = do_visit ops GraphStats (cout ''Pre-remodelling graph stats\<newline>'' s)"

text \<open>Lines 190-199: error correction.\<close>

definition correct_reads :: "'g graph_ops \<Rightarrow> options \<Rightarrow> 'g run_state \<Rightarrow> 'g run_state" where
  "correct_reads ops opt s =
     (if bCorrectReads opt
      then (let s = cout ''Correcting reads\<newline>'' s;
                s = do_visit ops ErrorCorrect s;
                s = cout ''Writing corrected reads\<newline>'' s;
                s = do_visit ops (Fasta ''correctedReads.fa'') s
            in writeASQG ''afterEC.asqg.gz'' s)
      else s)"

text \<open>
  Lines 201-217: remodelling. Its containment loop prints a line in every round.
\<close>

partial_function (option) remodel_contain_loop :: "'g graph_ops \<Rightarrow> 'g run_state \<Rightarrow> 'g run_state option" where
  "remodel_contain_loop ops s =
     (if hasContainment ops (graph s)
      then remodel_contain_loop ops
             (do_visit ops ContainRemove (cout ''Removing contained reads\<newline>'' s))
      else Some s)"

declare remodel_contain_loop.simps [code]

definition remodel_graph :: "'g graph_ops \<Rightarrow> options \<Rightarrow> 'g run_state \<Rightarrow> 'g run_state option" where
  "remodel_graph ops opt s =
     (if bRemodelGraph opt
      then do {
             let s = cout ''Remodelling graph\<newline>'' s;
             let s = do_visit ops Remodel s;
             let s = writeASQG ''afterRM.asqg.gz'' s;
             s \<leftarrow> remodel_contain_loop ops s;
             let s = do_visit ops TransitiveReduction s;
             let s = cout ''After remodel graph stats: \<newline>'' s;
             Some (do_visit ops GraphStats s)
           }
      else Some s)"

text \<open>
  The counting loops \<open>int n = N; while(n-- > 0) pGraph->visit(v);\<close> of lines 223-225,
  231-234 and 275-277. The counter only goes down from \<open>N\<close> to \<open>-1\<close>, so the C \<open>int\<close>
  behaves as the integer it holds.
\<close>

function visit_rounds :: "'g graph_ops \<Rightarrow> visitor \<Rightarrow> int \<Rightarrow> 'g run_state \<Rightarrow> 'g run_state" where
  "visit_rounds ops v n s =
     (if n > 0 then visit_rounds ops v (n - 1) (do_visit ops v s) else s)"
  by pat_completeness auto
termination
  by (relation "measure (\<lambda>(ops, v, n, s). nat n)") auto

declare visit_rounds.simps [simp del]

text \<open>Lines 219-226: trimming.\<close>

definition trim_graph :: "'g graph_ops \<Rightarrow> options \<Rightarrow> 'g run_state \<Rightarrow> 'g run_state" where
  "trim_graph ops opt s =
     (if numTrimRounds opt > 0
      then (let s = emit (EvWarnOnce ''USING NAIVE TRIMMING'') s;
                s = cout ''Trimming bad vertices\<newline>'' s
            in visit_rounds ops Trim (numTrimRounds opt) s)
      else s)"

text \<open>Lines 228-237: variation smoothing.\<close>

definition smooth_graph :: "'g graph_ops \<Rightarrow> options \<Rightarrow> 'g run_state \<Rightarrow> 'g run_state" where
  "smooth_graph ops opt s =
     (if bSmoothGraph opt
      then visit_rounds ops Smoothing 4 (cout ''\<newline>Performing variation smoothing\<newline>'' s)
      else s)"

text \<open>
  Lines 239-248: small-repeat resolution, \<open>while(pGraph->visit(smallRepeatVisit)) {}\<close>.
\<close>

partial_function (option) small_repeat_loop :: "'g graph_ops \<Rightarrow> visitor \<Rightarrow> 'g run_state \<Rightarrow> 'g run_state option" where
  "small_repeat_loop ops v s =
     (if fst (visit_flag ops v s)
      then small_repeat_loop ops v (snd (visit_flag ops v s))
      else Some (snd (visit_flag ops v s)))"

declare small_repeat_loop.simps [code]

definition resolve_small_repeats :: "'g graph_ops \<Rightarrow> options \<Rightarrow> 'g run_state \<Rightarrow> 'g run_state option" where
  "resolve_small_repeats ops opt s =
     (if resolveSmallRepeatLen opt \<ge> 0
      then do {
             let s = cout ''Resolving small repeats\<newline>'' s;
             s \<leftarrow> small_repeat_loop ops (SmallRepeatResolve (resolveSmallRepeatLen opt)) s;
             let s = cout ''After small repeat resolve graph stats\<newline>'' s;
             Some (do_visit ops GraphStats s)
           }
      else Some s)"

text \<open>Lines 250-262: the post-modification snapshot and statistics.\<close>

definition write_postmod :: "'g graph_ops \<Rightarrow> 'g run_state \<Rightarrow> 'g run_state" where
  "write_postmod ops s =
     (let s = writeASQG ''postmod.asqg.gz'' s;
          s = cout ''Pre-simplify graph stats\<newline>'' s
      in do_visit ops GraphStats s)"

text \<open>Lines 269-279: compaction, bubble removal, compaction again.\<close>

definition pop_bubbles :: "'g graph_ops \<Rightarrow> options \<Rightarrow> 'g run_state \<Rightarrow> 'g run_state" where
  "pop_bubbles ops opt s =
     (if numBubbleRounds opt > 0
      then (let s = cout ''\<newline>Performing bubble removal\<newline>'' s;
                s = visit_rounds ops Bubble (numBubbleRounds opt) s
            in do_simplify ops s)
      else s)"

text \<open>Lines 281-301: final statistics, validation in VALIDATE builds, and the output.\<close>

definition final_stats :: "'g graph_ops \<Rightarrow> 'g run_state \<Rightarrow> 'g run_state" where
  "final_stats ops s = do_visit ops GraphStats (cout ''\<newline>Final graph stats\<newline>'' s)"

definition validate_build :: "build_config \<Rightarrow> 'g run_state \<Rightarrow> 'g run_state" where
  "validate_build cfg s =
     (if VALIDATE cfg
      then emit EvValidate (emit (EvValidationWarning ''SGA/assemble'') s)
      else s)"

definition write_results :: "'g graph_ops \<Rightarrow> options \<Rightarrow> 'g run_state \<Rightarrow> 'g run_state" where
  "write_results ops opt s =
     (let s = \<lparr> graph = renameVertices ops ''contig-'' (graph s),
                trace = trace s @ [(graph s, EvRenameVertices ''contig-'')] \<rparr>;
          s = emit (EvWriteDot ''final.dot'') s;
          s = do_visit ops (Fasta (outFile opt)) s;
          s = (if asqgOutfile opt \<noteq> [] then writeASQG (asqgOutfile opt) s else s)
      in emit EvDeleteGraph s)"

text \<open>The function \<open>assemble\<close>: the stages above, in the order of the source.\<close>

definition assemble :: "'g graph_ops \<Rightarrow> build_config \<Rightarrow> options \<Rightarrow> 'g run_state option" where
  "assemble ops cfg opt =
     do {
       let s = load_graph ops opt;
       let s = debug_compare ops opt s;
       let s = edge_stats ops opt s;
       let s = initial_stats ops s;
       s \<leftarrow> remove_containments ops s;
       let s = post_contain_stats ops s;
       let s = transitive_reduction ops s;
       let s = validate_structure ops opt s;
       let s = pre_remodel_stats ops s;
       let s = correct_reads ops opt s;
       s \<leftarrow> remodel_graph ops opt s;
       let s = trim_graph ops opt s;
       let s = smooth_graph ops opt s;
       s \<leftarrow> resolve_small_repeats ops opt s;
       let s = write_postmod ops s;
       let s = do_simplify ops s;
       let s = pop_bubbles ops opt s;
       let s = final_stats ops s;
       let s = validate_build cfg s;
       Some (write_results ops opt s)
     }"

subsection \<open>Command-line parsing\<close>

text \<open>
  \<open>getopt_long\<close> belongs to the C library. The model takes what it returns: the list
  of its results up to the terminating \<open>-1\<close>, each a code (stored in a \<open>char\<close> by the
  source) with the value of \<open>optarg\<close> at that moment, and the positional arguments
  \<open>argv[optind], ..., argv[argc - 1]\<close> left over when it has finished. Its own
  diagnostics on the error stream are not events of this program. The extraction
  operators of \<open>std::istringstream\<close> are parameters too: each takes the text of the
  stream and the old value of the variable and returns the new value.
\<close>

record stream_ops =
  extract_string :: "string \<Rightarrow> string \<Rightarrow> string"
  extract_uint :: "string \<Rightarrow> nat \<Rightarrow> nat"
  extract_int :: "string \<Rightarrow> int \<Rightarrow> int"

definition OPT_HELP :: char where
  "OPT_HELP = CHR 0x01"

definition OPT_VERSION :: char where
  "OPT_VERSION = CHR 0x02"

definition OPT_VALIDATE :: char where
  "OPT_VALIDATE = CHR 0x03"

definition EXIT_SUCCESS :: int where
  "EXIT_SUCCESS = 0"

definition EXIT_FAILURE :: int where
  "EXIT_FAILURE = 1"

text \<open>
  One round of the option loop either goes on with the updated options and \<open>die\<close> flag
  or leaves the process through \<open>exit\<close>, with the text it printed.
\<close>

datatype parse_step = Exit int "event list" | Go options bool

definition switch_option ::
  "stream_ops \<Rightarrow> build_config \<Rightarrow> char \<Rightarrow> string option \<Rightarrow> options \<Rightarrow> bool \<Rightarrow> parse_step" where
  "switch_option sops cfg c optarg opt die =
     (let arg = (case optarg of None \<Rightarrow> [] | Some a \<Rightarrow> a) in
      if c = CHR ''p'' then Go (opt\<lparr>prefix := extract_string sops arg (prefix opt)\<rparr>) die
      else if c = CHR ''o'' then Go (opt\<lparr>outFile := extract_string sops arg (outFile opt)\<rparr>) die
      else if c = CHR ''m'' then Go (opt\<lparr>minOverlap := extract_uint sops arg (minOverlap opt)\<rparr>) die
      else if c = CHR ''d'' then Go (opt\<lparr>debugFile := extract_string sops arg (debugFile opt)\<rparr>) die
      else if c = CHR ''?'' then Go opt True
      else if c = CHR ''v'' then Go (opt\<lparr>verbose := verbose opt + 1\<rparr>) die
      else if c = CHR ''b'' then
        Go (opt\<lparr>numBubbleRounds := extract_int sops arg (numBubbleRounds opt)\<rparr>) die
      else if c = CHR ''s'' then Go (opt\<lparr>bSmoothGraph := True\<rparr>) die
      else if c = CHR ''t'' then
        Go (opt\<lparr>numTrimRounds := extract_int sops arg (numTrimRounds opt)\<rparr>) die
      else if c = CHR ''a'' then
        Go (opt\<lparr>asqgOutfile := extract_string sops arg (asqgOutfile opt)\<rparr>) die
      else if c = CHR ''c'' then Go (opt\<lparr>bCorrectReads := True\<rparr>) die
      else if c = CHR ''r'' then
        Go (opt\<lparr>resolveSmallRepeatLen := extract_int sops arg (resolveSmallRepeatLen opt)\<rparr>) die
      else if c = CHR ''z'' then Go (opt\<lparr>bRemodelGraph := True\<rparr>) die
      else if c = CHR ''x'' then Go (opt\<lparr>bEdgeStats := True\<rparr>) die
      else if c = CHR ''e'' then Go (opt\<lparr>bExact := True\<rparr>) die
      else if c = OPT_VALIDATE then Go (opt\<lparr>bValidate := True\<rparr>) die
      else if c = OPT_HELP then Exit EXIT_SUCCESS [EvCout (ASSEMBLE_USAGE_MESSAGE cfg)]
      else if c = OPT_VERSION then Exit EXIT_SUCCESS [EvCout (ASSEMBLE_VERSION_MESSAGE cfg)]
      else Go opt die)"

fun option_loop ::
  "stream_ops \<Rightarrow> build_config \<Rightarrow> (char \<times> string option) list \<Rightarrow> options \<Rightarrow> bool \<Rightarrow> parse_step" where
  "option_loop sops cfg [] opt die = Go opt die"
| "option_loop sops cfg ((c, optarg) # rest) opt die =
     (case switch_option sops cfg c optarg opt die of
        Exit code out \<Rightarrow> Exit code out
      | Go opt' die' \<Rightarrow> option_loop sops cfg rest opt' die')"

datatype parse_result = ParseExit int "event list" | Parsed options

definition TRY_HELP :: string where
  "TRY_HELP = ''Try `'' @ SUBPROGRAM @ '' --help' for more information.\<newline>''"

text \<open>
  \<open>parseAssembleOptions\<close>, run on the current values \<open>opt0\<close> of the option statics;
  \<open>length positionals\<close> is \<open>argc - optind\<close> after the option loop.
\<close>

definition parseAssembleOptions ::
  "stream_ops \<Rightarrow> build_config \<Rightarrow> (char \<times> string option) list \<Rightarrow> string list \<Rightarrow> options
     \<Rightarrow> parse_result" where
  "parseAssembleOptions sops cfg gs positionals opt0 =
     (case option_loop sops cfg gs (opt0\<lparr>outFile := ''contigs.fa'', minOverlap := 0\<rparr>) False of
        Exit code out \<Rightarrow> ParseExit code out
      | Go opt die \<Rightarrow>
          (let (out, die) =
                 (if length positionals < 1
                  then ([EvCerr (SUBPROGRAM @ '': missing arguments\<newline>'')], True)
                  else if length positionals > 1
                  then ([EvCerr (SUBPROGRAM @ '': too many arguments\<newline>'')], True)
                  else ([], die))
           in if die then ParseExit EXIT_FAILURE (out @ [EvCerr TRY_HELP])
              else Parsed (opt\<lparr>asqgFile := hd positionals\<rparr>)))"

subsection \<open>The entry point\<close>

text \<open>
  How the process ends: its exit code, what option parsing printed, and the trace of
  \<open>assemble\<close> (empty when the process left through \<open>exit\<close> before calling it).
\<close>

record 'g process =
  exit_code :: int
  console :: "event list"
  pipeline :: "('g \<times> event) list"

definition assembleMain ::
  "'g graph_ops \<Rightarrow> stream_ops \<Rightarrow> build_config \<Rightarrow> (char \<times> string option) list \<Rightarrow> string list
     \<Rightarrow> 'g process option" where
  "assembleMain ops sops cfg gs positionals =
     (case parseAssembleOptions sops cfg gs positionals static_opt of
        ParseExit code out \<Rightarrow> Some \<lparr> exit_code = code, console = out, pipeline = [] \<rparr>
      | Parsed opt \<Rightarrow>
          do {
            s \<leftarrow> assemble ops cfg opt;
            Some \<lparr> exit_code = 0, console = [], pipeline = trace s \<rparr>
          })"

subsection \<open>A small concrete instance\<close>

text \<open>
  A graph reduced to two counters: how many vertices are flagged contained, and how many
  small repeats are left to resolve. Remodelling flags one vertex again; the statistics
  and output visitors change nothing.
\<close>

definition toy_visit :: "visitor \<Rightarrow> nat \<times> nat \<Rightarrow> bool \<times> (nat \<times> nat)" where
  "toy_visit v g =
     (case v of
        ContainRemove \<Rightarrow> (fst g > 0, (fst g - 1, snd g))
      | Remodel \<Rightarrow> (True, (1, snd g))
      | SmallRepeatResolve n \<Rightarrow> (snd g > 0, (fst g, snd g - 1))
      | _ \<Rightarrow> (False, g))"

definition toy_ops :: "(nat \<times> nat) graph_ops" where
  "toy_ops =
     \<lparr> loadASQG = (\<lambda>file m b. (2, 1)),
       setExactMode = (\<lambda>b g. g),
       hasContainment = (\<lambda>g. fst g > 0),
       visit = toy_visit,
       simplify = (\<lambda>g. g),
       renameVertices = (\<lambda>p g. g) \<rparr>"

definition toy_cfg :: build_config where
  "toy_cfg = \<lparr> PACKAGE_NAME = ''sga'', PACKAGE_VERSION = ''0.1'',
               PACKAGE_BUGREPORT = ''js18@sanger.ac.uk'', VALIDATE = False \<rparr>"

definition toy_opt :: options where
  "toy_opt =
     \<lparr> verbose = 0, asqgFile = ''reads.asqg'', prefix = [], outFile = ''contigs.fa'',
       debugFile = [], asqgOutfile = ''final.asqg'', minOverlap = 0, bEdgeStats = False,
       bCorrectReads = True, bRemodelGraph = True, bSmoothGraph = True,
       resolveSmallRepeatLen = 0, numTrimRounds = 2, numBubbleRounds = 3,
       bValidate = True, bExact = False \<rparr>"

definition toy_number :: "string \<Rightarrow> nat" where
  "toy_number a = foldl (\<lambda>n c. 10 * n + (of_char c - 48)) 0 a"

definition toy_sops :: stream_ops where
  "toy_sops =
     \<lparr> extract_string = (\<lambda>a old. if a = [] then old else a),
       extract_uint = (\<lambda>a old. toy_number a),
       extract_int = (\<lambda>a old. int (toy_number a)) \<rparr>"

text \<open>
  What \<open>getopt_long\<close> returns for the command line
  \<^verbatim>\<open>assemble -t 2 -b 3 -s -r 0 --remodel -c --validate -a final.asqg reads.asqg\<close>.
\<close>

definition toy_gs :: "(char \<times> string option) list" where
  "toy_gs =
     [(CHR ''t'', Some ''2''), (CHR ''b'', Some ''3''), (CHR ''s'', None),
      (CHR ''r'', Some ''0''), (CHR ''z'', None), (CHR ''c'', None), (OPT_VALIDATE, None),
      (CHR ''a'', Some ''final.asqg'')]"

text \<open>The run of \<open>toy_opt\<close> on the toy graph ends in this state.\<close>

definition toy_final :: "(nat \<times> nat) run_state" where
  "toy_final =
     \<lparr> graph = (0, 0),
       trace =
         [((2, 1), EvLoadASQG ''reads.asqg'' 0 True),
          ((2, 1), EvPrintMemSize),
          ((2, 1), EvCout ''Initial graph stats\<newline>''),
          ((2, 1), EvVisit GraphStats),
          ((2, 1), EvCout ''Removing contained vertices\<newline>''),
          ((2, 1), EvVisit ContainRemove),
          ((1, 1), EvVisit ContainRemove),
          ((0, 1), EvCout ''Post-contain graph stats\<newline>''),
          ((0, 1), EvVisit GraphStats),
          ((0, 1), EvCout ''Removing transitive edges\<newline>''),
          ((0, 1), EvVisit TransitiveReduction),
          ((0, 1), EvCout ''Validating graph structure\<newline>''),
          ((0, 1), EvVisit ValidateStructure),
          ((0, 1), EvCout ''Pre-remodelling graph stats\<newline>''),
          ((0, 1), EvVisit GraphStats),
          ((0, 1), EvCout ''Correcting reads\<newline>''),
          ((0, 1), EvVisit ErrorCorrect),
          ((0, 1), EvCout ''Writing corrected reads\<newline>''),
          ((0, 1), EvVisit (Fasta ''correctedReads.fa'')),
          ((0, 1), EvWriteASQG ''afterEC.asqg.gz''),
          ((0, 1), EvCout ''Remodelling graph\<newline>''),
          ((0, 1), EvVisit Remodel),
          ((1, 1), EvWriteASQG ''afterRM.asqg.gz''),
          ((1, 1), EvCout ''Removing contained reads\<newline>''),
          ((1, 1), EvVisit ContainRemove),
          ((0, 1), EvVisit TransitiveReduction),
          ((0, 1), EvCout ''After remodel graph stats: \<newline>''),
          ((0, 1), EvVisit GraphStats),
          ((0, 1), EvWarnOnce ''USING NAIVE TRIMMING''),
          ((0, 1), EvCout ''Trimming bad vertices\<newline>''),
          ((0, 1), EvVisit Trim),
          ((0, 1), EvVisit Trim),
          ((0, 1), EvCout ''\<newline>Performing variation smoothing\<newline>''),
          ((0, 1), EvVisit Smoothing),
          ((0, 1), EvVisit Smoothing),
          ((0, 1), EvVisit Smoothing),
          ((0, 1), EvVisit Smoothing),
          ((0, 1), EvCout ''Resolving small repeats\<newline>''),
          ((0, 1), EvVisit (SmallRepeatResolve 0)),
          ((0, 0), EvVisit (SmallRepeatResolve 0)),
          ((0, 0), EvCout ''After small repeat resolve graph stats\<newline>''),
          ((0, 0), EvVisit GraphStats),
          ((0, 0), EvWriteASQG ''postmod.asqg.gz''),
          ((0, 0), EvCout ''Pre-simplify graph stats\<newline>''),
          ((0, 0), EvVisit GraphStats),
          ((0, 0), EvSimplify),
          ((0, 0), EvCout ''\<newline>Performing bubble removal\<newline>''),
          ((0, 0), EvVisit Bubble),
          ((0, 0), EvVisit Bubble),
          ((0, 0), EvVisit Bubble),
          ((0, 0), EvSimplify),
          ((0, 0), EvCout ''\<newline>Final graph stats\<newline>''),
          ((0, 0), EvVisit GraphStats),
          ((0, 0), EvRenameVertices ''contig-''),
          ((0, 0), EvWriteDot ''final.dot''),
          ((0, 0), EvVisit (Fasta ''contigs.fa'')),
          ((0, 0), EvWriteASQG ''final.asqg''),
          ((0, 0), EvDeleteGraph)] \<rparr>"

subsection \<open>A second instance, whose graph keeps count of what is done to it\<close>

text \<open>
  The graph remembers the arguments it was loaded with and counts the trimming,
  smoothing and bubble visits and the compactions applied to it.
\<close>

datatype tally =
  Tally (source: string) (threshold: nat) (flagged: nat) (trimmed: nat) (smoothed: nat)
    (popped: nat) (compacted: nat)

fun tally_visit :: "visitor \<Rightarrow> tally \<Rightarrow> bool \<times> tally" where
  "tally_visit ContainRemove (Tally f m c t s p k) = (c > 0, Tally f m (c - 1) t s p k)"
| "tally_visit Trim (Tally f m c t s p k) = (False, Tally f m c (t + 1) s p k)"
| "tally_visit Smoothing (Tally f m c t s p k) = (False, Tally f m c t (s + 1) p k)"
| "tally_visit Bubble (Tally f m c t s p k) = (False, Tally f m c t s (p + 1) k)"
| "tally_visit v g = (False, g)"

fun tally_simplify :: "tally \<Rightarrow> tally" where
  "tally_simplify (Tally f m c t s p k) = Tally f m c t s p (k + 1)"

definition tally_ops :: "tally graph_ops" where
  "tally_ops =
     \<lparr> loadASQG = (\<lambda>file m b. Tally file m (if b then 1 else 0) 0 0 0 0),
       setExactMode = (\<lambda>b g. g),
       hasContainment = (\<lambda>g. flagged g > 0),
       visit = tally_visit,
       simplify = tally_simplify,
       renameVertices = (\<lambda>p g. g) \<rparr>"

text \<open>What \<open>getopt_long\<close> returns for \<^verbatim>\<open>assemble -t 2 -s -b 3 reads.asqg\<close>.\<close>

definition tally_gs :: "(char \<times> string option) list" where
  "tally_gs = [(CHR ''t'', Some ''2''), (CHR ''s'', None), (CHR ''b'', Some ''3'')]"

definition tally_opt :: options where
  "tally_opt =
     \<lparr> verbose = 0, asqgFile = ''reads.asqg'', prefix = [], outFile = ''contigs.fa'',
       debugFile = [], asqgOutfile = [], minOverlap = 0, bEdgeStats = False,
       bCorrectReads = False, bRemodelGraph = False, bSmoothGraph = True,
       resolveSmallRepeatLen = - 1, numTrimRounds = 2, numBubbleRounds = 3,
       bValidate = False, bExact = False \<rparr>"

subsection \<open>A third instance, whose statistics visitor flags a vertex\<close>




text \<open>The runs of the two instances end in these states.\<close>

definition tally_final :: "tally run_state" where
  "tally_final =
     \<lparr> graph = Tally ''reads.asqg'' 0 0 2 4 3 2,
       trace =
         [(Tally ''reads.asqg'' 0 1 0 0 0 0, EvLoadASQG ''reads.asqg'' 0 True),
          (Tally ''reads.asqg'' 0 1 0 0 0 0, EvPrintMemSize),
          (Tally ''reads.asqg'' 0 1 0 0 0 0, EvCout ''Initial graph stats\<newline>''),
          (Tally ''reads.asqg'' 0 1 0 0 0 0, EvVisit GraphStats),
          (Tally ''reads.asqg'' 0 1 0 0 0 0, EvCout ''Removing contained vertices\<newline>''),
          (Tally ''reads.asqg'' 0 1 0 0 0 0, EvVisit ContainRemove),
          (Tally ''reads.asqg'' 0 0 0 0 0 0, EvCout ''Post-contain graph stats\<newline>''),
          (Tally ''reads.asqg'' 0 0 0 0 0 0, EvVisit GraphStats),
          (Tally ''reads.asqg'' 0 0 0 0 0 0, EvCout ''Removing transitive edges\<newline>''),
          (Tally ''reads.asqg'' 0 0 0 0 0 0, EvVisit TransitiveReduction),
          (Tally ''reads.asqg'' 0 0 0 0 0 0, EvCout ''Pre-remodelling graph stats\<newline>''),
          (Tally ''reads.asqg'' 0 0 0 0 0 0, EvVisit GraphStats),
          (Tally ''reads.asqg'' 0 0 0 0 0 0, EvWarnOnce ''USING NAIVE TRIMMING''),
          (Tally ''reads.asqg'' 0 0 0 0 0 0, EvCout ''Trimming bad vertices\<newline>''),
          (Tally ''reads.asqg'' 0 0 0 0 0 0, EvVisit Trim),
          (Tally ''reads.asqg'' 0 0 1 0 0 0, EvVisit Trim),
          (Tally ''reads.asqg'' 0 0 2 0 0 0, EvCout ''\<newline>Performing variation smoothing\<newline>''),
          (Tally ''reads.asqg'' 0 0 2 0 0 0, EvVisit Smoothing),
          (Tally ''reads.asqg'' 0 0 2 1 0 0, EvVisit Smoothing),
          (Tally ''reads.asqg'' 0 0 2 2 0 0, EvVisit Smoothing),
          (Tally ''reads.asqg'' 0 0 2 3 0 0, EvVisit Smoothing),
          (Tally ''reads.asqg'' 0 0 2 4 0 0, EvWriteASQG ''postmod.asqg.gz''),
          (Tally ''reads.asqg'' 0 0 2 4 0 0, EvCout ''Pre-simplify graph stats\<newline>''),
          (Tally ''reads.asqg'' 0 0 2 4 0 0, EvVisit GraphStats),
          (Tally ''reads.asqg'' 0 0 2 4 0 0, EvSimplify),
          (Tally ''reads.asqg'' 0 0 2 4 0 1, EvCout ''\<newline>Performing bubble removal\<newline>''),
          (Tally ''reads.asqg'' 0 0 2 4 0 1, EvVisit Bubble),
          (Tally ''reads.asqg'' 0 0 2 4 1 1, EvVisit Bubble),
          (Tally ''reads.asqg'' 0 0 2 4 2 1, EvVisit Bubble),
          (Tally ''reads.asqg'' 0 0 2 4 3 1, EvSimplify),
          (Tally ''reads.asqg'' 0 0 2 4 3 2, EvCout ''\<newline>Final graph stats\<newline>''),
          (Tally ''reads.asqg'' 0 0 2 4 3 2, EvVisit GraphStats),
          (Tally ''reads.asqg'' 0 0 2 4 3 2, EvRenameVertices ''contig-''),
          (Tally ''reads.asqg'' 0 0 2 4 3 2, EvWriteDot ''final.dot''),
          (Tally ''reads.asqg'' 0 0 2 4 3 2, EvVisit (Fasta ''contigs.fa'')),
          (Tally ''reads.asqg'' 0 0 2 4 3 2, EvDeleteGraph)] \<rparr>"


section \<open>The shape of a trace\<close>

text \<open>
  \<open>evs s\<close> is the trace without the graphs. \<open>appends s es s'\<close> says that \<open>s'\<close> has the
  trace of \<open>s\<close> followed by entries for the events \<open>es\<close>. The constants named
  \<open>..._events\<close> list what each stage appends; the numbers of rounds of the three
  open-ended loops are parameters.
\<close>

definition evs :: "'g run_state \<Rightarrow> event list" where
  "evs s = map snd (trace s)"

definition appends :: "'g run_state \<Rightarrow> event list \<Rightarrow> 'g run_state \<Rightarrow> bool" where
  "appends s es s' \<longleftrightarrow> (\<exists>seg. trace s' = trace s @ seg \<and> map snd seg = es)"

definition load_events :: "options \<Rightarrow> event list" where
  "load_events opt =
     EvLoadASQG (asqgFile opt) (minOverlap opt) True #
     (if bExact opt then [EvSetExactMode True] else []) @ [EvPrintMemSize]"

definition debug_events :: "options \<Rightarrow> event list" where
  "debug_events opt =
     (if debugFile opt \<noteq> []
      then [EvCout ''Initial graph stats\<newline>'', EvVisit GraphStats,
            EvVisit (DebugGraphCompare (debugFile opt)), EvVisit GraphStats]
      else [])"

definition edge_events :: "options \<Rightarrow> event list" where
  "edge_events opt =
     (if bEdgeStats opt then [EvCout ''Computing edge stats\<newline>'', EvVisit EdgeStats] else [])"

definition contain_events :: "nat \<Rightarrow> event list" where
  "contain_events k =
     EvCout ''Removing contained vertices\<newline>'' # replicate k (EvVisit ContainRemove)"

definition validate_events :: "options \<Rightarrow> event list" where
  "validate_events opt =
     (if bValidate opt
      then [EvCout ''Validating graph structure\<newline>'', EvVisit ValidateStructure]
      else [])"

definition correct_events :: "options \<Rightarrow> event list" where
  "correct_events opt =
     (if bCorrectReads opt
      then [EvCout ''Correcting reads\<newline>'', EvVisit ErrorCorrect,
            EvCout ''Writing corrected reads\<newline>'', EvVisit (Fasta ''correctedReads.fa''),
            EvWriteASQG ''afterEC.asqg.gz'']
      else [])"

definition remodel_round :: "event list" where
  "remodel_round = [EvCout ''Removing contained reads\<newline>'', EvVisit ContainRemove]"

definition remodel_events :: "options \<Rightarrow> nat \<Rightarrow> event list" where
  "remodel_events opt k =
     (if bRemodelGraph opt
      then [EvCout ''Remodelling graph\<newline>'', EvVisit Remodel, EvWriteASQG ''afterRM.asqg.gz'']
           @ concat (replicate k remodel_round)
           @ [EvVisit TransitiveReduction, EvCout ''After remodel graph stats: \<newline>'',
              EvVisit GraphStats]
      else [])"

definition trim_events :: "options \<Rightarrow> event list" where
  "trim_events opt =
     (if numTrimRounds opt > 0
      then [EvWarnOnce ''USING NAIVE TRIMMING'', EvCout ''Trimming bad vertices\<newline>'']
           @ replicate (nat (numTrimRounds opt)) (EvVisit Trim)
      else [])"

definition smooth_events :: "options \<Rightarrow> event list" where
  "smooth_events opt =
     (if bSmoothGraph opt
      then EvCout ''\<newline>Performing variation smoothing\<newline>'' # replicate 4 (EvVisit Smoothing)
      else [])"

definition resolve_events :: "options \<Rightarrow> nat \<Rightarrow> event list" where
  "resolve_events opt k =
     (if resolveSmallRepeatLen opt \<ge> 0
      then EvCout ''Resolving small repeats\<newline>''
           # replicate (Suc k) (EvVisit (SmallRepeatResolve (resolveSmallRepeatLen opt)))
           @ [EvCout ''After small repeat resolve graph stats\<newline>'', EvVisit GraphStats]
      else [])"

definition bubble_events :: "options \<Rightarrow> event list" where
  "bubble_events opt =
     (if numBubbleRounds opt > 0
      then EvCout ''\<newline>Performing bubble removal\<newline>''
           # replicate (nat (numBubbleRounds opt)) (EvVisit Bubble) @ [EvSimplify]
      else [])"

definition output_events :: "build_config \<Rightarrow> options \<Rightarrow> event list" where
  "output_events cfg opt =
     [EvCout ''\<newline>Final graph stats\<newline>'', EvVisit GraphStats]
     @ (if VALIDATE cfg then [EvValidationWarning ''SGA/assemble'', EvValidate] else [])
     @ [EvRenameVertices ''contig-'', EvWriteDot ''final.dot'', EvVisit (Fasta (outFile opt))]
     @ (if asqgOutfile opt \<noteq> [] then [EvWriteASQG (asqgOutfile opt)] else [])
     @ [EvDeleteGraph]"

definition before_containment :: "'g graph_ops \<Rightarrow> options \<Rightarrow> 'g run_state" where
  "before_containment ops opt =
     initial_stats ops (edge_stats ops opt (debug_compare ops opt (load_graph ops opt)))"

definition reduce_and_correct :: "'g graph_ops \<Rightarrow> options \<Rightarrow> 'g run_state \<Rightarrow> 'g run_state" where
  "reduce_and_correct ops opt s =
     correct_reads ops opt (pre_remodel_stats ops (validate_structure ops opt
       (transitive_reduction ops (post_contain_stats ops s))))"

definition compact_and_output ::
  "'g graph_ops \<Rightarrow> build_config \<Rightarrow> options \<Rightarrow> 'g run_state \<Rightarrow> 'g run_state" where
  "compact_and_output ops cfg opt s =
     write_results ops opt (validate_build cfg (final_stats ops
       (pop_bubbles ops opt (do_simplify ops (write_postmod ops s)))))"

definition front_events :: "options \<Rightarrow> event list" where
  "front_events opt =
     load_events opt @ debug_events opt @ edge_events opt
     @ [EvCout ''Initial graph stats\<newline>'', EvVisit GraphStats]"

definition reduce_events :: "options \<Rightarrow> event list" where
  "reduce_events opt =
     [EvCout ''Post-contain graph stats\<newline>'', EvVisit GraphStats,
      EvCout ''Removing transitive edges\<newline>'', EvVisit TransitiveReduction]
     @ validate_events opt
     @ [EvCout ''Pre-remodelling graph stats\<newline>'', EvVisit GraphStats]
     @ correct_events opt"

definition finish_events :: "build_config \<Rightarrow> options \<Rightarrow> event list" where
  "finish_events cfg opt =
     [EvWriteASQG ''postmod.asqg.gz'', EvCout ''Pre-simplify graph stats\<newline>'',
      EvVisit GraphStats, EvSimplify]
     @ bubble_events opt @ output_events cfg opt"

definition pipeline_events :: "build_config \<Rightarrow> options \<Rightarrow> nat \<Rightarrow> nat \<Rightarrow> nat \<Rightarrow> event list" where
  "pipeline_events cfg opt k1 k2 k3 =
     front_events opt @ contain_events k1 @ reduce_events opt @ remodel_events opt k2
     @ trim_events opt @ smooth_events opt @ resolve_events opt k3 @ finish_events cfg opt"

subsection \<open>Selecting events\<close>

definition count_event :: "event \<Rightarrow> event list \<Rightarrow> nat" where
  "count_event e es = length (filter (\<lambda>x. x = e) es)"


definition events_after :: "event \<Rightarrow> event list \<Rightarrow> event list" where
  "events_after e es = drop 1 (dropWhile (\<lambda>x. x \<noteq> e) es)"

definition is_load :: "event \<Rightarrow> bool" where
  "is_load e = (case e of EvLoadASQG f m b \<Rightarrow> True | _ \<Rightarrow> False)"

definition is_snapshot :: "event \<Rightarrow> bool" where
  "is_snapshot e = (case e of EvWriteASQG f \<Rightarrow> True | _ \<Rightarrow> False)"

text \<open>The operations that make up the stages of the pipeline, and the validation calls.\<close>

definition is_stage_visitor :: "visitor \<Rightarrow> bool" where
  "is_stage_visitor v =
     (case v of
        ContainRemove \<Rightarrow> True
      | TransitiveReduction \<Rightarrow> True
      | ErrorCorrect \<Rightarrow> True
      | Remodel \<Rightarrow> True
      | Trim \<Rightarrow> True
      | Smoothing \<Rightarrow> True
      | SmallRepeatResolve n \<Rightarrow> True
      | Bubble \<Rightarrow> True
      | _ \<Rightarrow> False)"

definition is_stage_op :: "event \<Rightarrow> bool" where
  "is_stage_op e = (case e of EvVisit v \<Rightarrow> is_stage_visitor v | EvSimplify \<Rightarrow> True | _ \<Rightarrow> False)"


subsection \<open>The trace and the graph in step\<close>

text \<open>
  What an event does to the graph: a visit leaves the graph the visitor returns,
  \<open>simplify\<close>, \<open>setExactMode\<close> and \<open>renameVertices\<close> leave their result, and printing,
  writing and loading (whose entry already carries the loaded graph) leave the graph as
  it is.
\<close>

fun apply_event :: "'g graph_ops \<Rightarrow> event \<Rightarrow> 'g \<Rightarrow> 'g" where
  "apply_event ops (EvVisit v) g = snd (visit ops v g)"
| "apply_event ops EvSimplify g = simplify ops g"
| "apply_event ops (EvSetExactMode b) g = setExactMode ops b g"
| "apply_event ops (EvRenameVertices p) g = renameVertices ops p g"
| "apply_event ops e g = g"

text \<open>
  \<open>lockstep ops tr\<close>: the graph of every entry but the first is the graph that the event
  of the entry before it leaves. A trace in lockstep records no operation that was not
  applied to the graph, and the graph changes by nothing that is not recorded.
\<close>

fun lockstep :: "'g graph_ops \<Rightarrow> ('g \<times> event) list \<Rightarrow> bool" where
  "lockstep ops ((g, e) # (g', e') # rest) \<longleftrightarrow>
     g' = apply_event ops e g \<and> lockstep ops ((g', e') # rest)"
| "lockstep ops tr \<longleftrightarrow> True"

text \<open>\<open>coherent ops s\<close>: the trace is in lockstep and the current graph is where it leads.\<close>

definition coherent :: "'g graph_ops \<Rightarrow> 'g run_state \<Rightarrow> bool" where
  "coherent ops s \<longleftrightarrow>
     lockstep ops (trace s) \<and> trace s \<noteq> []
     \<and> graph s = apply_event ops (snd (last (trace s))) (fst (last (trace s)))"

subsection \<open>The length filter of the loader\<close>

text \<open>
  Modelled from the spec: the length filter of \<open>SGUtil::loadASQG\<close>, which is not part of
  the source file. Section 4.2 of the specification has the overlaps of length at least
  a configured minimum kept and the others dropped, and the usage text above says of
  \<open>--min-overlap=LEN\<close>: only use overlaps of at least LEN. An overlap record is
  represented by its length.
\<close>

definition keeps_overlap :: "nat \<Rightarrow> nat \<Rightarrow> bool" where
  "keeps_overlap m len \<longleftrightarrow> m \<le> len"

definition filter_by_length :: "nat \<Rightarrow> nat list \<Rightarrow> nat list" where
  "filter_by_length m lens = filter (keeps_overlap m) lens"


subsection \<open>Stage by stage\<close>

lemma graph_emit [simp]: "graph (emit e s) = graph s"
  and trace_emit [simp]: "trace (emit e s) = trace s @ [(graph s, e)]"
  by (simp_all add: emit_def)

lemma graph_cout [simp]: "graph (cout m s) = graph s"
  and trace_cout [simp]: "trace (cout m s) = trace s @ [(graph s, EvCout m)]"
  by (simp_all add: cout_def)

lemma graph_writeASQG [simp]: "graph (writeASQG f s) = graph s"
  and trace_writeASQG [simp]: "trace (writeASQG f s) = trace s @ [(graph s, EvWriteASQG f)]"
  by (simp_all add: writeASQG_def)

lemma graph_do_visit [simp]: "graph (do_visit ops v s) = snd (visit ops v (graph s))"
  and trace_do_visit [simp]: "trace (do_visit ops v s) = trace s @ [(graph s, EvVisit v)]"
  by (simp_all add: do_visit_def visit_flag_def)

lemma visit_flag_eq: "visit_flag ops v s = (fst (visit ops v (graph s)), do_visit ops v s)"
  by (simp add: do_visit_def visit_flag_def)

lemma graph_do_simplify [simp]: "graph (do_simplify ops s) = simplify ops (graph s)"
  and trace_do_simplify [simp]: "trace (do_simplify ops s) = trace s @ [(graph s, EvSimplify)]"
  by (simp_all add: do_simplify_def)

lemma appends_refl: "appends s [] s"
  by (simp add: appends_def)

lemma appends_trans: "appends s es s' \<Longrightarrow> appends s' es' s'' \<Longrightarrow> appends s (es @ es') s''"
  by (auto simp: appends_def)

lemma appends_evs: "appends s es s' \<Longrightarrow> evs s' = evs s @ es"
  by (auto simp: appends_def evs_def)

lemma appends_do_visit: "appends s [EvVisit v] (do_visit ops v s)"
  by (simp add: appends_def)

lemma appends_cout: "appends s [EvCout m] (cout m s)"
  by (simp add: appends_def)

lemma visit_rounds_appends: "appends s (replicate (nat n) (EvVisit v)) (visit_rounds ops v n s)"
proof (induction ops v n s rule: visit_rounds.induct)
  case (1 ops v n s)
  show ?case
  proof (cases "n > 0")
    case True
    then have n: "nat n = Suc (nat (n - 1))" by simp
    have "appends s ([EvVisit v] @ replicate (nat (n - 1)) (EvVisit v))
            (visit_rounds ops v (n - 1) (do_visit ops v s))"
      using appends_trans [OF appends_do_visit "1.IH" [OF True]] .
    then show ?thesis
      using True n by (subst visit_rounds.simps) simp
  next
    case False
    then show ?thesis
      by (subst visit_rounds.simps) (simp add: appends_refl)
  qed
qed

lemma contain_loop_appends:
  assumes "contain_loop ops s = Some s'"
  shows "\<exists>k. appends s (replicate k (EvVisit ContainRemove)) s' \<and> \<not> hasContainment ops (graph s')"
proof (rule contain_loop.raw_induct
    [where P = "\<lambda>ops s s'. \<exists>k. appends s (replicate k (EvVisit ContainRemove)) s'
                   \<and> \<not> hasContainment ops (graph s')", OF _ assms])
  fix loop :: "'a graph_ops \<Rightarrow> 'a run_state \<Rightarrow> 'a run_state option" and ops s s'
  assume IH: "\<And>ops s s'. loop ops s = Some s' \<Longrightarrow>
      \<exists>k. appends s (replicate k (EvVisit ContainRemove)) s' \<and> \<not> hasContainment ops (graph s')"
    and body: "(if hasContainment ops (graph s)
                then loop ops (do_visit ops ContainRemove s) else Some s) = Some s'"
  show "\<exists>k. appends s (replicate k (EvVisit ContainRemove)) s' \<and> \<not> hasContainment ops (graph s')"
  proof (cases "hasContainment ops (graph s)")
    case True
    with body have "loop ops (do_visit ops ContainRemove s) = Some s'" by simp
    from IH [OF this] obtain k where
      k: "appends (do_visit ops ContainRemove s) (replicate k (EvVisit ContainRemove)) s'"
      and g: "\<not> hasContainment ops (graph s')" by blast
    have "appends s (replicate (Suc k) (EvVisit ContainRemove)) s'"
      using appends_trans [OF appends_do_visit k] by simp
    with g show ?thesis by blast
  next
    case False
    with body have "s' = s" by simp
    with False have "appends s (replicate 0 (EvVisit ContainRemove)) s' \<and> \<not> hasContainment ops (graph s')"
      by (simp add: appends_refl)
    then show ?thesis by blast
  qed
qed

lemma load_graph_evs: "evs (load_graph ops opt) = load_events opt"
  by (simp add: load_graph_def load_events_def evs_def Let_def)

lemma debug_compare_appends: "appends s (debug_events opt) (debug_compare ops opt s)"
  by (simp add: debug_compare_def debug_events_def appends_def Let_def)

lemma edge_stats_appends: "appends s (edge_events opt) (edge_stats ops opt s)"
  by (simp add: edge_stats_def edge_events_def appends_def)

lemma initial_stats_appends:
  "appends s [EvCout ''Initial graph stats\<newline>'', EvVisit GraphStats] (initial_stats ops s)"
  by (simp add: initial_stats_def appends_def)

lemma post_contain_stats_appends:
  "appends s [EvCout ''Post-contain graph stats\<newline>'', EvVisit GraphStats] (post_contain_stats ops s)"
  by (simp add: post_contain_stats_def appends_def)

lemma transitive_reduction_appends:
  "appends s [EvCout ''Removing transitive edges\<newline>'', EvVisit TransitiveReduction]
     (transitive_reduction ops s)"
  by (simp add: transitive_reduction_def appends_def)

lemma validate_structure_appends: "appends s (validate_events opt) (validate_structure ops opt s)"
  by (simp add: validate_structure_def validate_events_def appends_def)

lemma pre_remodel_stats_appends:
  "appends s [EvCout ''Pre-remodelling graph stats\<newline>'', EvVisit GraphStats] (pre_remodel_stats ops s)"
  by (simp add: pre_remodel_stats_def appends_def)

lemma correct_reads_appends: "appends s (correct_events opt) (correct_reads ops opt s)"
  by (simp add: correct_reads_def correct_events_def appends_def Let_def)

lemma trim_graph_appends: "appends s (trim_events opt) (trim_graph ops opt s)"
proof (cases "numTrimRounds opt > 0")
  case True
  have "appends s [EvWarnOnce ''USING NAIVE TRIMMING'', EvCout ''Trimming bad vertices\<newline>'']
          (cout ''Trimming bad vertices\<newline>'' (emit (EvWarnOnce ''USING NAIVE TRIMMING'') s))"
    by (simp add: appends_def)
  from appends_trans [OF this visit_rounds_appends] True show ?thesis
    by (simp add: trim_graph_def trim_events_def Let_def)
next
  case False
  then show ?thesis by (simp add: trim_graph_def trim_events_def appends_refl)
qed

lemma smooth_graph_appends: "appends s (smooth_events opt) (smooth_graph ops opt s)"
proof (cases "bSmoothGraph opt")
  case True
  from appends_trans [OF appends_cout visit_rounds_appends, of s _ 4 Smoothing ops] True
  show ?thesis by (simp add: smooth_graph_def smooth_events_def)
next
  case False
  then show ?thesis by (simp add: smooth_graph_def smooth_events_def appends_refl)
qed

lemma write_postmod_appends:
  "appends s [EvWriteASQG ''postmod.asqg.gz'', EvCout ''Pre-simplify graph stats\<newline>'',
              EvVisit GraphStats] (write_postmod ops s)"
  by (simp add: write_postmod_def appends_def Let_def)

lemma do_simplify_appends: "appends s [EvSimplify] (do_simplify ops s)"
  by (simp add: appends_def)

lemma pop_bubbles_appends: "appends s (bubble_events opt) (pop_bubbles ops opt s)"
proof (cases "numBubbleRounds opt > 0")
  case True
  from appends_trans [OF appends_trans [OF appends_cout visit_rounds_appends] do_simplify_appends,
      of s _ "numBubbleRounds opt" Bubble ops ops] True
  show ?thesis by (simp add: pop_bubbles_def bubble_events_def Let_def)
next
  case False
  then show ?thesis by (simp add: pop_bubbles_def bubble_events_def appends_refl)
qed

lemma output_appends:
  "appends s (output_events cfg opt) (write_results ops opt (validate_build cfg (final_stats ops s)))"
  by (simp add: write_results_def validate_build_def final_stats_def output_events_def
      appends_def Let_def)

lemma remodel_contain_loop_trace:
  assumes "remodel_contain_loop ops s = Some s'"
  shows "\<exists>seg k. trace s' = trace s @ seg \<and> map snd seg = concat (replicate k remodel_round)
           \<and> (\<forall>x \<in> set seg. hasContainment ops (fst x)) \<and> \<not> hasContainment ops (graph s')"
proof (rule remodel_contain_loop.raw_induct
    [where P = "\<lambda>ops s s'. \<exists>seg k. trace s' = trace s @ seg
                   \<and> map snd seg = concat (replicate k remodel_round)
                   \<and> (\<forall>x \<in> set seg. hasContainment ops (fst x))
                   \<and> \<not> hasContainment ops (graph s')", OF _ assms])
  fix loop :: "'a graph_ops \<Rightarrow> 'a run_state \<Rightarrow> 'a run_state option" and ops s s'
  assume IH: "\<And>ops s s'. loop ops s = Some s' \<Longrightarrow>
      \<exists>seg k. trace s' = trace s @ seg \<and> map snd seg = concat (replicate k remodel_round)
           \<and> (\<forall>x \<in> set seg. hasContainment ops (fst x)) \<and> \<not> hasContainment ops (graph s')"
    and body: "(if hasContainment ops (graph s)
                then loop ops (do_visit ops ContainRemove (cout ''Removing contained reads\<newline>'' s))
                else Some s) = Some s'"
  show "\<exists>seg k. trace s' = trace s @ seg \<and> map snd seg = concat (replicate k remodel_round)
           \<and> (\<forall>x \<in> set seg. hasContainment ops (fst x)) \<and> \<not> hasContainment ops (graph s')"
  proof (cases "hasContainment ops (graph s)")
    case True
    let ?s1 = "do_visit ops ContainRemove (cout ''Removing contained reads\<newline>'' s)"
    from True body have "loop ops ?s1 = Some s'" by simp
    from IH [OF this] obtain seg k where
      t: "trace s' = trace ?s1 @ seg" and e: "map snd seg = concat (replicate k remodel_round)"
      and h: "\<forall>x \<in> set seg. hasContainment ops (fst x)"
      and g: "\<not> hasContainment ops (graph s')" by blast
    let ?seg = "[(graph s, EvCout ''Removing contained reads\<newline>''), (graph s, EvVisit ContainRemove)] @ seg"
    have "trace s' = trace s @ ?seg" using t by simp
    moreover have "map snd ?seg = concat (replicate (Suc k) remodel_round)"
      using e by (simp add: remodel_round_def)
    moreover have "\<forall>x \<in> set ?seg. hasContainment ops (fst x)" using h True by simp
    ultimately show ?thesis using g by blast
  next
    case False
    with body have "s' = s" by simp
    with False have "trace s' = trace s @ [] \<and> map snd [] = concat (replicate 0 remodel_round)
        \<and> (\<forall>x \<in> set ([] :: ('a \<times> event) list). hasContainment ops (fst x))
        \<and> \<not> hasContainment ops (graph s')"
      by simp
    then show ?thesis by blast
  qed
qed

lemma small_repeat_loop_trace:
  assumes "small_repeat_loop ops v s = Some s'"
  shows "\<exists>seg k. trace s' = trace s @ seg \<and> map snd seg = replicate (Suc k) (EvVisit v)
           \<and> map (\<lambda>x. fst (visit ops v (fst x))) seg = replicate k True @ [False]"
proof (rule small_repeat_loop.raw_induct
    [where P = "\<lambda>ops v s s'. \<exists>seg k. trace s' = trace s @ seg
                   \<and> map snd seg = replicate (Suc k) (EvVisit v)
                   \<and> map (\<lambda>x. fst (visit ops v (fst x))) seg = replicate k True @ [False]",
     OF _ assms])
  fix loop :: "'a graph_ops \<Rightarrow> visitor \<Rightarrow> 'a run_state \<Rightarrow> 'a run_state option" and ops v s s'
  assume IH: "\<And>ops v s s'. loop ops v s = Some s' \<Longrightarrow>
      \<exists>seg k. trace s' = trace s @ seg \<and> map snd seg = replicate (Suc k) (EvVisit v)
           \<and> map (\<lambda>x. fst (visit ops v (fst x))) seg = replicate k True @ [False]"
    and body: "(if fst (visit_flag ops v s)
                then loop ops v (snd (visit_flag ops v s))
                else Some (snd (visit_flag ops v s))) = Some s'"
  show "\<exists>seg k. trace s' = trace s @ seg \<and> map snd seg = replicate (Suc k) (EvVisit v)
           \<and> map (\<lambda>x. fst (visit ops v (fst x))) seg = replicate k True @ [False]"
  proof (cases "fst (visit ops v (graph s))")
    case True
    with body have "loop ops v (do_visit ops v s) = Some s'"
      by (simp add: visit_flag_eq)
    from IH [OF this] obtain seg k where
      t: "trace s' = trace (do_visit ops v s) @ seg"
      and e: "map snd seg = replicate (Suc k) (EvVisit v)"
      and f: "map (\<lambda>x. fst (visit ops v (fst x))) seg = replicate k True @ [False]" by blast
    let ?seg = "(graph s, EvVisit v) # seg"
    have "trace s' = trace s @ ?seg" using t by simp
    moreover have "map snd ?seg = replicate (Suc (Suc k)) (EvVisit v)" using e by simp
    moreover have "map (\<lambda>x. fst (visit ops v (fst x))) ?seg = replicate (Suc k) True @ [False]"
      using f True by simp
    ultimately show ?thesis by blast
  next
    case False
    with body have "s' = do_visit ops v s"
      by (simp add: visit_flag_eq)
    with False have "trace s' = trace s @ [(graph s, EvVisit v)]
        \<and> map snd [(graph s, EvVisit v)] = replicate (Suc 0) (EvVisit v)
        \<and> map (\<lambda>x. fst (visit ops v (fst x))) [(graph s, EvVisit v)] = replicate 0 True @ [False]"
      by simp
    then show ?thesis by blast
  qed
qed

lemma remove_containments_appends:
  assumes "remove_containments ops s = Some s'"
  shows "\<exists>k. appends s (contain_events k) s' \<and> \<not> hasContainment ops (graph s')"
proof -
  from assms contain_loop_appends obtain k where
    k: "appends (cout ''Removing contained vertices\<newline>'' s) (replicate k (EvVisit ContainRemove)) s'"
    and g: "\<not> hasContainment ops (graph s')"
    unfolding remove_containments_def by blast
  from appends_trans [OF appends_cout k] g show ?thesis by (auto simp: contain_events_def)
qed

lemma remodel_graph_trace:
  assumes "remodel_graph ops opt s = Some s'" and "bRemodelGraph opt"
  shows "\<exists>seg k g. trace s' = trace s @
             [(graph s, EvCout ''Remodelling graph\<newline>''), (graph s, EvVisit Remodel),
              (snd (visit ops Remodel (graph s)), EvWriteASQG ''afterRM.asqg.gz'')]
             @ seg @
             [(g, EvVisit TransitiveReduction),
              (snd (visit ops TransitiveReduction g), EvCout ''After remodel graph stats: \<newline>''),
              (snd (visit ops TransitiveReduction g), EvVisit GraphStats)]
           \<and> map snd seg = concat (replicate k remodel_round)
           \<and> (\<forall>x \<in> set seg. hasContainment ops (fst x))
           \<and> \<not> hasContainment ops g"
proof -
  let ?s1 = "writeASQG ''afterRM.asqg.gz'' (do_visit ops Remodel (cout ''Remodelling graph\<newline>'' s))"
  from assms obtain s2 where
    loop: "remodel_contain_loop ops ?s1 = Some s2"
    and s': "s' = do_visit ops GraphStats (cout ''After remodel graph stats: \<newline>''
                    (do_visit ops TransitiveReduction s2))"
    by (auto simp: remodel_graph_def Let_def bind_eq_Some_conv)
  from remodel_contain_loop_trace [OF loop] obtain seg k where
    t: "trace s2 = trace ?s1 @ seg" and e: "map snd seg = concat (replicate k remodel_round)"
    and h: "\<forall>x \<in> set seg. hasContainment ops (fst x)"
    and g: "\<not> hasContainment ops (graph s2)" by blast
  have "trace s' = trace s @
             [(graph s, EvCout ''Remodelling graph\<newline>''), (graph s, EvVisit Remodel),
              (snd (visit ops Remodel (graph s)), EvWriteASQG ''afterRM.asqg.gz'')]
             @ seg @
             [(graph s2, EvVisit TransitiveReduction),
              (snd (visit ops TransitiveReduction (graph s2)), EvCout ''After remodel graph stats: \<newline>''),
              (snd (visit ops TransitiveReduction (graph s2)), EvVisit GraphStats)]"
    using t s' by simp
  with e h g show ?thesis by blast
qed

lemma remodel_graph_appends:
  assumes "remodel_graph ops opt s = Some s'"
  shows "\<exists>k. appends s (remodel_events opt k) s'"
proof (cases "bRemodelGraph opt")
  case True
  from remodel_graph_trace [OF assms True] obtain seg k g where
    "trace s' = trace s @
             [(graph s, EvCout ''Remodelling graph\<newline>''), (graph s, EvVisit Remodel),
              (snd (visit ops Remodel (graph s)), EvWriteASQG ''afterRM.asqg.gz'')]
             @ seg @
             [(g, EvVisit TransitiveReduction),
              (snd (visit ops TransitiveReduction g), EvCout ''After remodel graph stats: \<newline>''),
              (snd (visit ops TransitiveReduction g), EvVisit GraphStats)]"
    and "map snd seg = concat (replicate k remodel_round)" by blast
  then have "appends s (remodel_events opt k) s'"
    using True by (simp add: appends_def remodel_events_def)
  then show ?thesis ..
next
  case False
  with assms have "s' = s" by (simp add: remodel_graph_def)
  with False have "appends s (remodel_events opt 0) s'"
    by (simp add: remodel_events_def appends_refl)
  then show ?thesis ..
qed

lemma resolve_small_repeats_trace:
  assumes "resolve_small_repeats ops opt s = Some s'" and "resolveSmallRepeatLen opt \<ge> 0"
  shows "\<exists>seg k g. trace s' = trace s @ [(graph s, EvCout ''Resolving small repeats\<newline>'')] @ seg @
             [(g, EvCout ''After small repeat resolve graph stats\<newline>''), (g, EvVisit GraphStats)]
           \<and> map snd seg = replicate (Suc k) (EvVisit (SmallRepeatResolve (resolveSmallRepeatLen opt)))
           \<and> map (\<lambda>x. fst (visit ops (SmallRepeatResolve (resolveSmallRepeatLen opt)) (fst x))) seg
               = replicate k True @ [False]"
proof -
  let ?v = "SmallRepeatResolve (resolveSmallRepeatLen opt)"
  from assms obtain s2 where
    loop: "small_repeat_loop ops ?v (cout ''Resolving small repeats\<newline>'' s) = Some s2"
    and s': "s' = do_visit ops GraphStats (cout ''After small repeat resolve graph stats\<newline>'' s2)"
    by (auto simp: resolve_small_repeats_def Let_def bind_eq_Some_conv)
  from small_repeat_loop_trace [OF loop] obtain seg k where
    t: "trace s2 = trace (cout ''Resolving small repeats\<newline>'' s) @ seg"
    and e: "map snd seg = replicate (Suc k) (EvVisit ?v)"
    and f: "map (\<lambda>x. fst (visit ops ?v (fst x))) seg = replicate k True @ [False]" by blast
  have "trace s' = trace s @ [(graph s, EvCout ''Resolving small repeats\<newline>'')] @ seg @
             [(graph s2, EvCout ''After small repeat resolve graph stats\<newline>''),
              (graph s2, EvVisit GraphStats)]"
    using t s' by simp
  with e f show ?thesis by blast
qed

lemma resolve_small_repeats_appends:
  assumes "resolve_small_repeats ops opt s = Some s'"
  shows "\<exists>k. appends s (resolve_events opt k) s'"
proof (cases "resolveSmallRepeatLen opt \<ge> 0")
  case True
  from resolve_small_repeats_trace [OF assms True] obtain seg k g where
    "trace s' = trace s @ [(graph s, EvCout ''Resolving small repeats\<newline>'')] @ seg @
             [(g, EvCout ''After small repeat resolve graph stats\<newline>''), (g, EvVisit GraphStats)]"
    and "map snd seg = replicate (Suc k) (EvVisit (SmallRepeatResolve (resolveSmallRepeatLen opt)))"
    by blast
  then have "appends s (resolve_events opt k) s'"
    using True by (simp add: appends_def resolve_events_def)
  then show ?thesis ..
next
  case False
  with assms have "s' = s" by (simp add: resolve_small_repeats_def)
  with False have "appends s (resolve_events opt 0) s'"
    by (simp add: resolve_events_def appends_refl)
  then show ?thesis ..
qed

lemma assemble_stages:
  assumes "assemble ops cfg opt = Some s"
  obtains s1 s2 s3 where
    "remove_containments ops (before_containment ops opt) = Some s1"
    "remodel_graph ops opt (reduce_and_correct ops opt s1) = Some s2"
    "resolve_small_repeats ops opt (smooth_graph ops opt (trim_graph ops opt s2)) = Some s3"
    "s = compact_and_output ops cfg opt s3"
  using assms
  by (auto simp: assemble_def before_containment_def reduce_and_correct_def
      compact_and_output_def Let_def bind_eq_Some_conv)

lemma reduce_and_correct_appends: "appends s (reduce_events opt) (reduce_and_correct ops opt s)"
proof -
  have "appends s
          ([EvCout ''Post-contain graph stats\<newline>'', EvVisit GraphStats]
           @ [EvCout ''Removing transitive edges\<newline>'', EvVisit TransitiveReduction]
           @ validate_events opt
           @ [EvCout ''Pre-remodelling graph stats\<newline>'', EvVisit GraphStats]
           @ correct_events opt)
          (reduce_and_correct ops opt s)"
    unfolding reduce_and_correct_def
    by (rule appends_trans [OF post_contain_stats_appends
          appends_trans [OF transitive_reduction_appends
            appends_trans [OF validate_structure_appends
              appends_trans [OF pre_remodel_stats_appends correct_reads_appends]]]])
  then show ?thesis by (simp add: reduce_events_def)
qed

lemma compact_and_output_appends:
  "appends s (finish_events cfg opt) (compact_and_output ops cfg opt s)"
proof -
  have "appends s
          ([EvWriteASQG ''postmod.asqg.gz'', EvCout ''Pre-simplify graph stats\<newline>'',
            EvVisit GraphStats]
           @ [EvSimplify] @ bubble_events opt @ output_events cfg opt)
          (compact_and_output ops cfg opt s)"
    unfolding compact_and_output_def
    by (rule appends_trans [OF write_postmod_appends
          appends_trans [OF do_simplify_appends
            appends_trans [OF pop_bubbles_appends output_appends]]])
  then show ?thesis by (simp add: finish_events_def)
qed

lemma assemble_run_parts:
  assumes "assemble ops cfg opt = Some s"
  obtains s1 sr s2 sp s3 k1 where
    "appends (load_graph ops opt)
       (debug_events opt @ edge_events opt
        @ [EvCout ''Initial graph stats\<newline>'', EvVisit GraphStats])
       (before_containment ops opt)"
    "appends (before_containment ops opt) (contain_events k1) s1"
    "\<not> hasContainment ops (graph s1)"
    "sr = reduce_and_correct ops opt s1"
    "remodel_graph ops opt sr = Some s2"
    "appends s2 (trim_events opt @ smooth_events opt) sp"
    "resolve_small_repeats ops opt sp = Some s3"
    "appends s3 (finish_events cfg opt) s"
proof -
  from assms obtain s1 s2 s3 where
    a: "remove_containments ops (before_containment ops opt) = Some s1"
    and b: "remodel_graph ops opt (reduce_and_correct ops opt s1) = Some s2"
    and c: "resolve_small_repeats ops opt (smooth_graph ops opt (trim_graph ops opt s2)) = Some s3"
    and d: "s = compact_and_output ops cfg opt s3"
    by (rule assemble_stages)
  have 0: "appends (load_graph ops opt)
          (debug_events opt @ edge_events opt
           @ [EvCout ''Initial graph stats\<newline>'', EvVisit GraphStats])
          (before_containment ops opt)"
    unfolding before_containment_def
    by (rule appends_trans [OF debug_compare_appends
          appends_trans [OF edge_stats_appends initial_stats_appends]])
  from remove_containments_appends [OF a] obtain k1 where
    1: "appends (before_containment ops opt) (contain_events k1) s1"
    and 2: "\<not> hasContainment ops (graph s1)"
    by blast
  have 3: "appends s2 (trim_events opt @ smooth_events opt)
             (smooth_graph ops opt (trim_graph ops opt s2))"
    by (rule appends_trans [OF trim_graph_appends smooth_graph_appends])
  have 5: "appends s3 (finish_events cfg opt) s"
    unfolding d by (rule compact_and_output_appends)
  from 0 1 2 refl b 3 c 5 show thesis by (rule that)
qed

lemma before_containment_evs: "evs (before_containment ops opt) = front_events opt"
proof -
  have "appends (load_graph ops opt)
          (debug_events opt @ edge_events opt
           @ [EvCout ''Initial graph stats\<newline>'', EvVisit GraphStats])
          (before_containment ops opt)"
    unfolding before_containment_def
    by (rule appends_trans [OF debug_compare_appends
          appends_trans [OF edge_stats_appends initial_stats_appends]])
  from appends_evs [OF this] show ?thesis
    by (simp add: front_events_def load_graph_evs)
qed

text \<open>The events of a completed run, up to the numbers of rounds of the three open loops.\<close>

lemma assemble_events:
  assumes "assemble ops cfg opt = Some s"
  shows "\<exists>k1 k2 k3. evs s = pipeline_events cfg opt k1 k2 k3"
proof -
  from assms obtain s1 sr s2 sp s3 k1 where
    1: "appends (before_containment ops opt) (contain_events k1) s1"
    and r: "sr = reduce_and_correct ops opt s1"
    and 2: "remodel_graph ops opt sr = Some s2"
    and 3: "appends s2 (trim_events opt @ smooth_events opt) sp"
    and 4: "resolve_small_repeats ops opt sp = Some s3"
    and 5: "appends s3 (finish_events cfg opt) s"
    by (rule assemble_run_parts)
  from remodel_graph_appends [OF 2] obtain k2 where
    k2: "appends sr (remodel_events opt k2) s2" by blast
  from resolve_small_repeats_appends [OF 4] obtain k3 where
    k3: "appends sp (resolve_events opt k3) s3" by blast
  have "appends s1 (reduce_events opt) sr"
    unfolding r by (rule reduce_and_correct_appends)
  from appends_evs [OF appends_trans [OF 1 appends_trans [OF this
        appends_trans [OF k2 appends_trans [OF 3 appends_trans [OF k3 5]]]]]]
  have "evs s = pipeline_events cfg opt k1 k2 k3"
    by (simp add: pipeline_events_def before_containment_evs)
  then show ?thesis by blast
qed

lemma assemble_first_entry:
  assumes "assemble ops cfg opt = Some s"
  shows "\<exists>rest. trace s = (loadASQG ops (asqgFile opt) (minOverlap opt) True,
                          EvLoadASQG (asqgFile opt) (minOverlap opt) True) # rest"
proof -
  from assms obtain s1 sr s2 sp s3 k1 where
    0: "appends (load_graph ops opt)
       (debug_events opt @ edge_events opt
        @ [EvCout ''Initial graph stats\<newline>'', EvVisit GraphStats])
       (before_containment ops opt)"
    and 1: "appends (before_containment ops opt) (contain_events k1) s1"
    and r: "sr = reduce_and_correct ops opt s1"
    and 2: "remodel_graph ops opt sr = Some s2"
    and 3: "appends s2 (trim_events opt @ smooth_events opt) sp"
    and 4: "resolve_small_repeats ops opt sp = Some s3"
    and 5: "appends s3 (finish_events cfg opt) s"
    by (rule assemble_run_parts)
  from remodel_graph_appends [OF 2] obtain k2 where
    k2: "appends sr (remodel_events opt k2) s2" by blast
  from resolve_small_repeats_appends [OF 4] obtain k3 where
    k3: "appends sp (resolve_events opt k3) s3" by blast
  have "appends s1 (reduce_events opt) sr"
    unfolding r by (rule reduce_and_correct_appends)
  from appends_trans [OF 0 appends_trans [OF 1 appends_trans [OF this
        appends_trans [OF k2 appends_trans [OF 3 appends_trans [OF k3 5]]]]]]
  obtain seg where "trace s = trace (load_graph ops opt) @ seg"
    by (auto simp: appends_def)
  then show ?thesis
    by (simp add: load_graph_def Let_def)
qed

lemma assemble_trace_nonempty:
  assumes "assemble ops cfg opt = Some s"
  shows "trace s \<noteq> []"
  using assemble_first_entry [OF assms] by auto

subsection \<open>Which events a stage can emit\<close>

lemma concat_replicate_Nil: "concat (replicate k []) = []"
  by (induction k) simp_all

lemma concat_replicate_single: "concat (replicate k [x]) = replicate k x"
  by (induction k) simp_all

lemmas segment_defs =
  front_events_def load_events_def debug_events_def edge_events_def contain_events_def
  reduce_events_def validate_events_def correct_events_def remodel_events_def
  remodel_round_def trim_events_def smooth_events_def resolve_events_def finish_events_def
  bubble_events_def output_events_def

subsection \<open>Every stage keeps the trace and the graph in step\<close>

lemma lockstep_snoc:
  "lockstep ops (tr @ [(g, e)]) \<longleftrightarrow>
     lockstep ops tr \<and> (tr \<noteq> [] \<longrightarrow> g = apply_event ops (snd (last tr)) (fst (last tr)))"
  by (induction ops tr rule: lockstep.induct) auto

lemma coherent_emit:
  assumes "coherent ops s" and "apply_event ops e (graph s) = graph s"
  shows "coherent ops (emit e s)"
  using assms by (simp add: coherent_def lockstep_snoc)

lemma coherent_cout [simp]: "coherent ops s \<Longrightarrow> coherent ops (cout m s)"
  by (simp add: cout_def coherent_emit)

lemma coherent_writeASQG [simp]: "coherent ops s \<Longrightarrow> coherent ops (writeASQG f s)"
  by (simp add: writeASQG_def coherent_emit)

lemma coherent_do_visit [simp]: "coherent ops s \<Longrightarrow> coherent ops (do_visit ops v s)"
  by (simp add: coherent_def lockstep_snoc)

lemma coherent_do_simplify [simp]: "coherent ops s \<Longrightarrow> coherent ops (do_simplify ops s)"
  by (simp add: coherent_def lockstep_snoc)

lemma coherent_rename:
  assumes "coherent ops s"
  shows "coherent ops \<lparr> graph = renameVertices ops p (graph s),
                        trace = trace s @ [(graph s, EvRenameVertices p)] \<rparr>"
  using assms by (simp add: coherent_def lockstep_snoc)

lemma coherent_load_graph: "coherent ops (load_graph ops opt)"
  by (simp add: load_graph_def Let_def coherent_def lockstep_snoc)

lemma coherent_visit_rounds: "coherent ops s \<Longrightarrow> coherent ops (visit_rounds ops v n s)"
proof (induction ops v n s rule: visit_rounds.induct)
  case (1 ops v n s)
  show ?case
  proof (cases "n > 0")
    case True
    with 1 show ?thesis by (subst visit_rounds.simps) simp
  next
    case False
    with 1 show ?thesis by (subst visit_rounds.simps) simp
  qed
qed

lemma coherent_before_containment: "coherent ops (before_containment ops opt)"
  using coherent_load_graph [of ops opt]
  by (simp add: before_containment_def debug_compare_def edge_stats_def initial_stats_def Let_def)

lemma coherent_reduce_and_correct:
  "coherent ops s \<Longrightarrow> coherent ops (reduce_and_correct ops opt s)"
  by (simp add: reduce_and_correct_def post_contain_stats_def transitive_reduction_def
      validate_structure_def pre_remodel_stats_def correct_reads_def Let_def)

lemma coherent_trim_smooth:
  "coherent ops s \<Longrightarrow> coherent ops (smooth_graph ops opt (trim_graph ops opt s))"
  by (simp add: trim_graph_def smooth_graph_def Let_def coherent_emit coherent_visit_rounds)

lemma coherent_compact_and_output:
  assumes "coherent ops s"
  shows "coherent ops (compact_and_output ops cfg opt s)"
proof -
  have 1: "coherent ops (write_postmod ops s)"
    using assms by (simp add: write_postmod_def Let_def)
  have 2: "coherent ops (pop_bubbles ops opt (do_simplify ops (write_postmod ops s)))"
    using 1 by (simp add: pop_bubbles_def Let_def coherent_visit_rounds)
  have 3: "coherent ops (validate_build cfg (final_stats ops
             (pop_bubbles ops opt (do_simplify ops (write_postmod ops s)))))"
    using 2 by (simp add: final_stats_def validate_build_def coherent_emit)
  have "\<And>t. coherent ops t \<Longrightarrow> coherent ops (write_results ops opt t)"
    by (simp add: write_results_def Let_def coherent_emit coherent_rename)
  from this [OF 3] show ?thesis by (simp add: compact_and_output_def)
qed

lemma coherent_contain_loop:
  assumes "contain_loop ops s = Some s'" and "coherent ops s"
  shows "coherent ops s'"
proof -
  have "coherent ops s \<longrightarrow> coherent ops s'"
  proof (rule contain_loop.raw_induct
      [where P = "\<lambda>ops s s'. coherent ops s \<longrightarrow> coherent ops s'", OF _ assms(1)])
    fix loop :: "'a graph_ops \<Rightarrow> 'a run_state \<Rightarrow> 'a run_state option" and ops s s'
    assume IH: "\<And>ops s s'. loop ops s = Some s' \<Longrightarrow> coherent ops s \<longrightarrow> coherent ops s'"
      and body: "(if hasContainment ops (graph s)
                  then loop ops (do_visit ops ContainRemove s) else Some s) = Some s'"
    show "coherent ops s \<longrightarrow> coherent ops s'"
    proof (cases "hasContainment ops (graph s)")
      case True
      with body have "loop ops (do_visit ops ContainRemove s) = Some s'" by simp
      from IH [OF this] show ?thesis by simp
    next
      case False
      with body show ?thesis by simp
    qed
  qed
  with assms(2) show ?thesis by simp
qed

lemma coherent_remodel_contain_loop:
  assumes "remodel_contain_loop ops s = Some s'" and "coherent ops s"
  shows "coherent ops s'"
proof -
  have "coherent ops s \<longrightarrow> coherent ops s'"
  proof (rule remodel_contain_loop.raw_induct
      [where P = "\<lambda>ops s s'. coherent ops s \<longrightarrow> coherent ops s'", OF _ assms(1)])
    fix loop :: "'a graph_ops \<Rightarrow> 'a run_state \<Rightarrow> 'a run_state option" and ops s s'
    assume IH: "\<And>ops s s'. loop ops s = Some s' \<Longrightarrow> coherent ops s \<longrightarrow> coherent ops s'"
      and body: "(if hasContainment ops (graph s)
                  then loop ops (do_visit ops ContainRemove
                                  (cout ''Removing contained reads\<newline>'' s))
                  else Some s) = Some s'"
    show "coherent ops s \<longrightarrow> coherent ops s'"
    proof (cases "hasContainment ops (graph s)")
      case True
      with body have "loop ops (do_visit ops ContainRemove
                                  (cout ''Removing contained reads\<newline>'' s)) = Some s'" by simp
      from IH [OF this] show ?thesis by simp
    next
      case False
      with body show ?thesis by simp
    qed
  qed
  with assms(2) show ?thesis by simp
qed

lemma coherent_small_repeat_loop:
  assumes "small_repeat_loop ops v s = Some s'" and "coherent ops s"
  shows "coherent ops s'"
proof -
  have "coherent ops s \<longrightarrow> coherent ops s'"
  proof (rule small_repeat_loop.raw_induct
      [where P = "\<lambda>ops v s s'. coherent ops s \<longrightarrow> coherent ops s'", OF _ assms(1)])
    fix loop :: "'a graph_ops \<Rightarrow> visitor \<Rightarrow> 'a run_state \<Rightarrow> 'a run_state option" and ops v s s'
    assume IH: "\<And>ops v s s'. loop ops v s = Some s' \<Longrightarrow> coherent ops s \<longrightarrow> coherent ops s'"
      and body: "(if fst (visit_flag ops v s)
                  then loop ops v (snd (visit_flag ops v s))
                  else Some (snd (visit_flag ops v s))) = Some s'"
    show "coherent ops s \<longrightarrow> coherent ops s'"
    proof (cases "fst (visit ops v (graph s))")
      case True
      with body have "loop ops v (do_visit ops v s) = Some s'" by (simp add: visit_flag_eq)
      from IH [OF this] show ?thesis by simp
    next
      case False
      with body have "s' = do_visit ops v s" by (simp add: visit_flag_eq)
      then show ?thesis by simp
    qed
  qed
  with assms(2) show ?thesis by simp
qed

lemma coherent_remodel_graph:
  assumes "remodel_graph ops opt s = Some s'" and "coherent ops s"
  shows "coherent ops s'"
proof (cases "bRemodelGraph opt")
  case True
  with assms(1) obtain s2 where
    loop: "remodel_contain_loop ops (writeASQG ''afterRM.asqg.gz'' (do_visit ops Remodel
             (cout ''Remodelling graph\<newline>'' s))) = Some s2"
    and s': "s' = do_visit ops GraphStats (cout ''After remodel graph stats: \<newline>''
                    (do_visit ops TransitiveReduction s2))"
    by (auto simp: remodel_graph_def Let_def bind_eq_Some_conv)
  from coherent_remodel_contain_loop [OF loop] assms(2) have "coherent ops s2" by simp
  then show ?thesis unfolding s' by simp
next
  case False
  with assms show ?thesis by (simp add: remodel_graph_def)
qed

lemma coherent_resolve_small_repeats:
  assumes "resolve_small_repeats ops opt s = Some s'" and "coherent ops s"
  shows "coherent ops s'"
proof (cases "0 \<le> resolveSmallRepeatLen opt")
  case True
  with assms(1) obtain s2 where
    loop: "small_repeat_loop ops (SmallRepeatResolve (resolveSmallRepeatLen opt))
             (cout ''Resolving small repeats\<newline>'' s) = Some s2"
    and s': "s' = do_visit ops GraphStats (cout ''After small repeat resolve graph stats\<newline>'' s2)"
    by (auto simp: resolve_small_repeats_def Let_def bind_eq_Some_conv)
  from coherent_small_repeat_loop [OF loop] assms(2) have "coherent ops s2" by simp
  then show ?thesis unfolding s' by simp
next
  case False
  with assms show ?thesis by (simp add: resolve_small_repeats_def)
qed

text \<open>
  In a completed run every recorded operation was applied to the graph, in the recorded
  order, and nothing else changed the graph.
\<close>

lemma assemble_lockstep:
  assumes "assemble ops cfg opt = Some s"
  shows "lockstep ops (trace s)"
proof -
  from assms obtain s1 s2 s3 where
    a: "remove_containments ops (before_containment ops opt) = Some s1"
    and b: "remodel_graph ops opt (reduce_and_correct ops opt s1) = Some s2"
    and c: "resolve_small_repeats ops opt (smooth_graph ops opt (trim_graph ops opt s2)) = Some s3"
    and d: "s = compact_and_output ops cfg opt s3"
    by (rule assemble_stages)
  from a have "contain_loop ops (cout ''Removing contained vertices\<newline>''
                 (before_containment ops opt)) = Some s1"
    by (simp add: remove_containments_def)
  from coherent_contain_loop [OF this] coherent_before_containment [of ops opt]
  have "coherent ops s1" by simp
  from coherent_remodel_graph [OF b coherent_reduce_and_correct [OF this]]
  have "coherent ops s2" .
  from coherent_resolve_small_repeats [OF c coherent_trim_smooth [OF this]]
  have "coherent ops s3" .
  from coherent_compact_and_output [OF this] show ?thesis
    unfolding d by (simp add: coherent_def)
qed

subsection \<open>When the open loops end\<close>

text \<open>
  The three open loops return as soon as their visitor makes progress by some measure:
  the containment visitor on every graph that reports a containment, the small-repeat
  visitor whenever it reports a change. Then \<open>assemble\<close> returns.
\<close>

lemma contain_loop_returns:
  assumes "\<And>g. hasContainment ops g \<Longrightarrow> m (snd (visit ops ContainRemove g)) < (m g :: nat)"
  shows "\<exists>s'. contain_loop ops s = Some s'"
proof (induction "m (graph s)" arbitrary: s rule: less_induct)
  case less
  show ?case
  proof (cases "hasContainment ops (graph s)")
    case True
    from assms [OF True] have "m (graph (do_visit ops ContainRemove s)) < m (graph s)" by simp
    from less [OF this] True show ?thesis
      by (subst contain_loop.simps) simp
  next
    case False
    then show ?thesis by (subst contain_loop.simps) simp
  qed
qed

lemma remodel_contain_loop_returns:
  assumes "\<And>g. hasContainment ops g \<Longrightarrow> m (snd (visit ops ContainRemove g)) < (m g :: nat)"
  shows "\<exists>s'. remodel_contain_loop ops s = Some s'"
proof (induction "m (graph s)" arbitrary: s rule: less_induct)
  case less
  show ?case
  proof (cases "hasContainment ops (graph s)")
    case True
    let ?s = "do_visit ops ContainRemove (cout ''Removing contained reads\<newline>'' s)"
    from assms [OF True] have "m (graph ?s) < m (graph s)" by simp
    from less [OF this] True show ?thesis
      by (subst remodel_contain_loop.simps) simp
  next
    case False
    then show ?thesis by (subst remodel_contain_loop.simps) simp
  qed
qed

lemma small_repeat_loop_returns:
  assumes "\<And>g. fst (visit ops v g) \<Longrightarrow> m (snd (visit ops v g)) < (m g :: nat)"
  shows "\<exists>s'. small_repeat_loop ops v s = Some s'"
proof (induction "m (graph s)" arbitrary: s rule: less_induct)
  case less
  show ?case
  proof (cases "fst (visit ops v (graph s))")
    case True
    from assms [OF True] have "m (graph (do_visit ops v s)) < m (graph s)" by simp
    from less [OF this] True show ?thesis
      by (subst small_repeat_loop.simps) (simp add: visit_flag_eq)
  next
    case False
    then show ?thesis
      by (subst small_repeat_loop.simps) (simp add: visit_flag_eq)
  qed
qed

lemma assemble_returns:
  assumes contain: "\<And>g. hasContainment ops g \<Longrightarrow> m (snd (visit ops ContainRemove g)) < (m g :: nat)"
    and resolve: "\<And>g. fst (visit ops (SmallRepeatResolve (resolveSmallRepeatLen opt)) g)
        \<Longrightarrow> n (snd (visit ops (SmallRepeatResolve (resolveSmallRepeatLen opt)) g)) < (n g :: nat)"
  shows "\<exists>s. assemble ops cfg opt = Some s"
proof -
  from contain_loop_returns [of ops m, OF contain] obtain s1 where
    1: "remove_containments ops (before_containment ops opt) = Some s1"
    unfolding remove_containments_def by blast
  have "\<exists>s2. remodel_graph ops opt (reduce_and_correct ops opt s1) = Some s2"
  proof (cases "bRemodelGraph opt")
    case True
    from remodel_contain_loop_returns [of ops m, OF contain] obtain s' where
      "remodel_contain_loop ops (writeASQG ''afterRM.asqg.gz'' (do_visit ops Remodel
         (cout ''Remodelling graph\<newline>'' (reduce_and_correct ops opt s1)))) = Some s'"
      by blast
    with True show ?thesis by (simp add: remodel_graph_def)
  next
    case False
    then show ?thesis by (simp add: remodel_graph_def)
  qed
  then obtain s2 where 2: "remodel_graph ops opt (reduce_and_correct ops opt s1) = Some s2" ..
  have "\<exists>s3. resolve_small_repeats ops opt (smooth_graph ops opt (trim_graph ops opt s2)) = Some s3"
  proof (cases "0 \<le> resolveSmallRepeatLen opt")
    case True
    from small_repeat_loop_returns [of ops _ n, OF resolve] obtain s' where
      "small_repeat_loop ops (SmallRepeatResolve (resolveSmallRepeatLen opt))
         (cout ''Resolving small repeats\<newline>'' (smooth_graph ops opt (trim_graph ops opt s2)))
       = Some s'"
      by blast
    with True show ?thesis by (simp add: resolve_small_repeats_def)
  next
    case False
    then show ?thesis by (simp add: resolve_small_repeats_def)
  qed
  then obtain s3 where
    3: "resolve_small_repeats ops opt (smooth_graph ops opt (trim_graph ops opt s2)) = Some s3" ..
  from 1 2 3 show ?thesis
    by (simp add: assemble_def before_containment_def reduce_and_correct_def)
qed

subsection \<open>The concrete instance, run\<close>

lemma toy_run: "assemble toy_ops toy_cfg toy_opt = Some toy_final"
  by code_simp

lemma tally_run: "assemble tally_ops toy_cfg tally_opt = Some tally_final"
  by code_simp


lemma tally_parse:
  "parseAssembleOptions toy_sops toy_cfg tally_gs [''reads.asqg''] static_opt = Parsed tally_opt"
  by code_simp

lemma tally_main:
  "assembleMain tally_ops toy_sops toy_cfg tally_gs [''reads.asqg'']
     = Some \<lparr> exit_code = 0, console = [], pipeline = trace tally_final \<rparr>"
  by (simp add: assembleMain_def tally_parse tally_run)

section \<open>Properties of the pipeline\<close>

subsection \<open>Containment-free moments\<close>












subsection \<open>Compaction and bubble removal\<close>

lemma compact_filter:
  "filter (\<lambda>e. e = EvSimplify \<or> e = EvVisit Bubble) (front_events opt) = []"
  "filter (\<lambda>e. e = EvSimplify \<or> e = EvVisit Bubble) (contain_events k1) = []"
  "filter (\<lambda>e. e = EvSimplify \<or> e = EvVisit Bubble) (reduce_events opt) = []"
  "filter (\<lambda>e. e = EvSimplify \<or> e = EvVisit Bubble) (remodel_events opt k2) = []"
  "filter (\<lambda>e. e = EvSimplify \<or> e = EvVisit Bubble) (trim_events opt) = []"
  "filter (\<lambda>e. e = EvSimplify \<or> e = EvVisit Bubble) (smooth_events opt) = []"
  "filter (\<lambda>e. e = EvSimplify \<or> e = EvVisit Bubble) (resolve_events opt k3) = []"
  "filter (\<lambda>e. e = EvSimplify \<or> e = EvVisit Bubble) (finish_events cfg opt)
     = EvSimplify # (if 0 < numBubbleRounds opt
                     then replicate (nat (numBubbleRounds opt)) (EvVisit Bubble) @ [EvSimplify]
                     else [])"
  by (simp_all add: segment_defs concat_replicate_Nil filter_concat)

text \<open>
  C2. In every completed run the graph is compacted (\<open>simplify\<close>) before any bubble is
  popped. If the number of bubble rounds N is greater than 0, the bubble visitor is then
  applied exactly N times and \<open>simplify\<close> is called a second time after the last of them;
  otherwise the bubble visitor is not applied and \<open>simplify\<close> is called once only. The
  first part of the statement lists all the calls of \<open>simplify\<close> and all the bubble
  visits of the run, in order. The second part says that each of them was carried out on
  the graph: the trace is in lockstep, so the entry after a \<open>simplify\<close> carries the
  graph that \<open>simplify\<close> returned for the graph before it, and the entry after a bubble
  visit the graph that the bubble visitor returned.
\<close>

theorem compaction_then_bubbles:
  assumes "assemble ops cfg opt = Some s"
  shows "filter (\<lambda>e. e = EvSimplify \<or> e = EvVisit Bubble) (map snd (trace s))
     = EvSimplify # (if 0 < numBubbleRounds opt
                     then replicate (nat (numBubbleRounds opt)) (EvVisit Bubble) @ [EvSimplify]
                     else [])
    \<and> lockstep ops (trace s)"
proof
  from assemble_events [OF assms(1)] obtain k1 k2 k3 where
    "evs s = pipeline_events cfg opt k1 k2 k3" by blast
  then show "filter (\<lambda>e. e = EvSimplify \<or> e = EvVisit Bubble) (map snd (trace s))
     = EvSimplify # (if 0 < numBubbleRounds opt
                     then replicate (nat (numBubbleRounds opt)) (EvVisit Bubble) @ [EvSimplify]
                     else [])"
    by (simp add: evs_def [symmetric] pipeline_events_def compact_filter)
  show "lockstep ops (trace s)" using assms by (rule assemble_lockstep)
qed

theorem compaction_then_bubbles_witness:
  "assemble tally_ops toy_cfg tally_opt = Some tally_final \<and> numBubbleRounds tally_opt = 3
   \<and> filter (\<lambda>e. e = EvSimplify \<or> e = EvVisit Bubble) (map snd (trace tally_final))
       = EvSimplify # replicate 3 (EvVisit Bubble) @ [EvSimplify]
   \<and> lockstep tally_ops (trace tally_final)
   \<and> compacted (graph tally_final) = 2
   \<and> popped (graph tally_final) = 3"
proof -
  have "compacted (graph tally_final) = 2" and "popped (graph tally_final) = 3"
    by (simp_all add: tally_final_def)
  with compaction_then_bubbles [of tally_ops toy_cfg tally_opt tally_final] tally_run
  show ?thesis by (simp add: tally_opt_def)
qed

subsection \<open>Remodelling\<close>





subsection \<open>Trimming and smoothing\<close>

lemma trim_filter:
  "filter (\<lambda>e. e = EvVisit Trim) (front_events opt) = []"
  "filter (\<lambda>e. e = EvVisit Trim) (contain_events k1) = []"
  "filter (\<lambda>e. e = EvVisit Trim) (reduce_events opt) = []"
  "filter (\<lambda>e. e = EvVisit Trim) (remodel_events opt k2) = []"
  "filter (\<lambda>e. e = EvVisit Trim) (trim_events opt) = replicate (nat (numTrimRounds opt)) (EvVisit Trim)"
  "filter (\<lambda>e. e = EvVisit Trim) (smooth_events opt) = []"
  "filter (\<lambda>e. e = EvVisit Trim) (resolve_events opt k3) = []"
  "filter (\<lambda>e. e = EvVisit Trim) (finish_events cfg opt) = []"
  by (simp_all add: segment_defs concat_replicate_Nil filter_concat)

lemma smooth_filter:
  "filter (\<lambda>e. e = EvVisit Smoothing) (front_events opt) = []"
  "filter (\<lambda>e. e = EvVisit Smoothing) (contain_events k1) = []"
  "filter (\<lambda>e. e = EvVisit Smoothing) (reduce_events opt) = []"
  "filter (\<lambda>e. e = EvVisit Smoothing) (remodel_events opt k2) = []"
  "filter (\<lambda>e. e = EvVisit Smoothing) (trim_events opt) = []"
  "filter (\<lambda>e. e = EvVisit Smoothing) (smooth_events opt)
     = (if bSmoothGraph opt then replicate 4 (EvVisit Smoothing) else [])"
  "filter (\<lambda>e. e = EvVisit Smoothing) (resolve_events opt k3) = []"
  "filter (\<lambda>e. e = EvVisit Smoothing) (finish_events cfg opt) = []"
  by (simp_all add: segment_defs concat_replicate_Nil filter_concat)

text \<open>
  C4. When the number of trim rounds N is greater than 0, a completed run has applied the
  trimming visitor to the graph exactly N times: the trace has N trimming visits, and
  the trace is in lockstep, so each of them was applied to the graph that the operation
  before it left and the graph it returned is the one the run went on with. The statement
  holds for every implementation of the graph and its visitors, so no answer of a visit
  (changed or not) ends the rounds early or adds one.
\<close>

theorem trim_rounds_fixed:
  assumes "assemble ops cfg opt = Some s" and "0 < numTrimRounds opt"
  shows "int (count_event (EvVisit Trim) (map snd (trace s))) = numTrimRounds opt
    \<and> lockstep ops (trace s)"
proof
  from assemble_events [OF assms(1)] obtain k1 k2 k3 where
    "evs s = pipeline_events cfg opt k1 k2 k3" by blast
  then have "count_event (EvVisit Trim) (map snd (trace s)) = nat (numTrimRounds opt)"
    by (simp add: count_event_def evs_def [symmetric] pipeline_events_def trim_filter)
  with assms(2) show "int (count_event (EvVisit Trim) (map snd (trace s))) = numTrimRounds opt"
    by simp
  show "lockstep ops (trace s)" using assms(1) by (rule assemble_lockstep)
qed

theorem trim_rounds_fixed_witness:
  "assemble tally_ops toy_cfg tally_opt = Some tally_final \<and> 0 < numTrimRounds tally_opt
   \<and> int (count_event (EvVisit Trim) (map snd (trace tally_final))) = 2
   \<and> lockstep tally_ops (trace tally_final)
   \<and> trimmed (graph tally_final) = 2
   \<and> fst (visit tally_ops Trim (graph tally_final)) = False"
proof -
  have "trimmed (graph tally_final) = 2"
    and "fst (visit tally_ops Trim (graph tally_final)) = False"
    by (simp_all add: tally_final_def tally_ops_def)
  with trim_rounds_fixed [of tally_ops toy_cfg tally_opt tally_final] tally_run
  show ?thesis by (simp add: tally_opt_def)
qed

text \<open>
  C5. When smoothing is enabled, a completed run has applied the smoothing visitor to the
  graph exactly 4 times, the number written in the source: the trace has 4 smoothing
  visits and is in lockstep, so each of them was applied to the graph and its result
  kept. This holds for every implementation of the graph and its visitors: a visit that
  reports no change does not end the rounds.
\<close>

theorem smoothing_rounds_fixed:
  assumes "assemble ops cfg opt = Some s" and "bSmoothGraph opt"
  shows "count_event (EvVisit Smoothing) (map snd (trace s)) = 4 \<and> lockstep ops (trace s)"
proof
  from assemble_events [OF assms(1)] obtain k1 k2 k3 where
    "evs s = pipeline_events cfg opt k1 k2 k3" by blast
  with assms(2) show "count_event (EvVisit Smoothing) (map snd (trace s)) = 4"
    by (simp add: count_event_def evs_def [symmetric] pipeline_events_def smooth_filter)
  show "lockstep ops (trace s)" using assms(1) by (rule assemble_lockstep)
qed

theorem smoothing_rounds_fixed_witness:
  "assemble tally_ops toy_cfg tally_opt = Some tally_final \<and> bSmoothGraph tally_opt
   \<and> count_event (EvVisit Smoothing) (map snd (trace tally_final)) = 4
   \<and> lockstep tally_ops (trace tally_final)
   \<and> smoothed (graph tally_final) = 4
   \<and> fst (visit tally_ops Smoothing (graph tally_final)) = False"
proof -
  have "smoothed (graph tally_final) = 4"
    and "fst (visit tally_ops Smoothing (graph tally_final)) = False"
    by (simp_all add: tally_final_def tally_ops_def)
  with smoothing_rounds_fixed [of tally_ops toy_cfg tally_opt tally_final] tally_run
  show ?thesis by (simp add: tally_opt_def)
qed

subsection \<open>Small-repeat resolution\<close>

lemma filter_snd_none:
  assumes "e \<notin> set (map snd xs)"
  shows "filter (\<lambda>x. snd x = e) xs = []"
proof -
  from assms have "\<forall>x \<in> set xs. snd x \<noteq> e" by (metis imageI set_map)
  then show ?thesis by simp
qed

lemma filter_snd_all:
  assumes "map snd xs = replicate n e"
  shows "filter (\<lambda>x. snd x = e) xs = xs"
proof -
  have "\<forall>x \<in> set xs. snd x = e"
  proof
    fix x assume "x \<in> set xs"
    then have "snd x \<in> set (map snd xs)" by simp
    with assms show "snd x = e" by simp
  qed
  then show ?thesis by simp
qed

lemma no_small_repeat_events:
  "EvVisit (SmallRepeatResolve n) \<notin> set (front_events opt)"
  "EvVisit (SmallRepeatResolve n) \<notin> set (contain_events k1)"
  "EvVisit (SmallRepeatResolve n) \<notin> set (reduce_events opt)"
  "EvVisit (SmallRepeatResolve n) \<notin> set (remodel_events opt k2)"
  "EvVisit (SmallRepeatResolve n) \<notin> set (trim_events opt)"
  "EvVisit (SmallRepeatResolve n) \<notin> set (smooth_events opt)"
  "EvVisit (SmallRepeatResolve n) \<notin> set (finish_events cfg opt)"
  by (simp_all add: segment_defs)

lemma small_repeat_events_iff:
  "(\<exists>n. EvVisit (SmallRepeatResolve n) \<in> set (resolve_events opt k3))
     \<longleftrightarrow> 0 \<le> resolveSmallRepeatLen opt"
  by (auto simp: resolve_events_def)

text \<open>
  C6. In a completed run the small-repeat visitor is applied if and only if the
  resolve-small length is at least 0. When it is, the flags returned by its successive
  applications (with the configured length) are \<open>True\<close> every time but the last and
  \<open>False\<close> the last time: the visitor is applied again for as long as it reports a change,
  and no more after the first application that reports none.
\<close>

theorem small_repeats_to_fixed_point:
  assumes run: "assemble ops cfg opt = Some s"
  shows "((\<exists>n. EvVisit (SmallRepeatResolve n) \<in> set (map snd (trace s)))
            \<longleftrightarrow> 0 \<le> resolveSmallRepeatLen opt)
    \<and> (0 \<le> resolveSmallRepeatLen opt \<longrightarrow>
         (\<exists>k. map (\<lambda>x. fst (visit ops (SmallRepeatResolve (resolveSmallRepeatLen opt)) (fst x)))
                 (filter (\<lambda>x. snd x = EvVisit (SmallRepeatResolve (resolveSmallRepeatLen opt)))
                    (trace s))
               = replicate k True @ [False]))"
proof
  from assemble_events [OF run] obtain k1 k2 k3 where
    "evs s = pipeline_events cfg opt k1 k2 k3" by blast
  then have "map snd (trace s) = pipeline_events cfg opt k1 k2 k3" by (simp add: evs_def)
  then show "(\<exists>n. EvVisit (SmallRepeatResolve n) \<in> set (map snd (trace s)))
            \<longleftrightarrow> 0 \<le> resolveSmallRepeatLen opt"
    using small_repeat_events_iff [of opt k3]
    by (simp add: pipeline_events_def no_small_repeat_events)
next
  let ?v = "SmallRepeatResolve (resolveSmallRepeatLen opt)"
  show "0 \<le> resolveSmallRepeatLen opt \<longrightarrow>
         (\<exists>k. map (\<lambda>x. fst (visit ops ?v (fst x))) (filter (\<lambda>x. snd x = EvVisit ?v) (trace s))
               = replicate k True @ [False])"
  proof
    assume on: "0 \<le> resolveSmallRepeatLen opt"
    from run obtain s1 sr s2 sp s3 k1 where
      1: "appends (before_containment ops opt) (contain_events k1) s1"
      and r: "sr = reduce_and_correct ops opt s1"
      and 2: "remodel_graph ops opt sr = Some s2"
      and 3: "appends s2 (trim_events opt @ smooth_events opt) sp"
      and 4: "resolve_small_repeats ops opt sp = Some s3"
      and 5: "appends s3 (finish_events cfg opt) s"
      by (rule assemble_run_parts)
    from remodel_graph_appends [OF 2] obtain k2 where
      k2: "appends sr (remodel_events opt k2) s2" by blast
    have "appends s1 (reduce_events opt) sr"
      unfolding r by (rule reduce_and_correct_appends)
    from appends_evs [OF appends_trans [OF 1 appends_trans [OF this appends_trans [OF k2 3]]]]
    have "EvVisit ?v \<notin> set (map snd (trace sp))"
      by (simp add: evs_def [symmetric] before_containment_evs no_small_repeat_events)
    then have before: "filter (\<lambda>x. snd x = EvVisit ?v) (trace sp) = []"
      by (rule filter_snd_none)
    from resolve_small_repeats_trace [OF 4 on] obtain seg k g where
      t3: "trace s3 = trace sp @ [(graph sp, EvCout ''Resolving small repeats\<newline>'')] @ seg @
             [(g, EvCout ''After small repeat resolve graph stats\<newline>''), (g, EvVisit GraphStats)]"
      and e: "map snd seg = replicate (Suc k) (EvVisit ?v)"
      and f: "map (\<lambda>x. fst (visit ops ?v (fst x))) seg = replicate k True @ [False]" by blast
    from 5 obtain rest where t: "trace s = trace s3 @ rest"
      and rest: "map snd rest = finish_events cfg opt"
      by (auto simp: appends_def)
    from rest have "EvVisit ?v \<notin> set (map snd rest)"
      by (simp add: no_small_repeat_events)
    then have after: "filter (\<lambda>x. snd x = EvVisit ?v) rest = []"
      by (rule filter_snd_none)
    have "filter (\<lambda>x. snd x = EvVisit ?v) (trace s) = seg"
      unfolding t t3 using before after filter_snd_all [OF e] by simp
    with f show "\<exists>k. map (\<lambda>x. fst (visit ops ?v (fst x))) (filter (\<lambda>x. snd x = EvVisit ?v) (trace s))
               = replicate k True @ [False]"
      by auto
  qed
qed

theorem small_repeats_to_fixed_point_witness:
  "assemble toy_ops toy_cfg toy_opt = Some toy_final \<and> 0 \<le> resolveSmallRepeatLen toy_opt
   \<and> map (\<lambda>x. fst (visit toy_ops (SmallRepeatResolve 0) (fst x)))
         (filter (\<lambda>x. snd x = EvVisit (SmallRepeatResolve 0)) (trace toy_final))
       = [True, False]"
proof -
  have "map (\<lambda>x. fst (visit toy_ops (SmallRepeatResolve 0) (fst x)))
         (filter (\<lambda>x. snd x = EvVisit (SmallRepeatResolve 0)) (trace toy_final))
       = [True, False]"
    by (simp add: toy_final_def toy_ops_def toy_visit_def)
  with small_repeats_to_fixed_point [OF toy_run] toy_run show ?thesis
    by (simp add: toy_opt_def)
qed

subsection \<open>The option loop\<close>

lemma switch_option_no_exit:
  assumes "c \<noteq> OPT_HELP" and "c \<noteq> OPT_VERSION"
  shows "\<exists>opt'. switch_option sops cfg c optarg opt die = Go opt' (die \<or> c = CHR ''?'')"
  using assms by (simp add: switch_option_def Let_def)

lemma option_loop_no_exit:
  assumes "OPT_HELP \<notin> fst ` set gs" and "OPT_VERSION \<notin> fst ` set gs"
  shows "\<exists>opt'. option_loop sops cfg gs opt die = Go opt' (die \<or> CHR ''?'' \<in> fst ` set gs)"
  using assms
proof (induction gs arbitrary: opt die)
  case Nil
  then show ?case by simp
next
  case (Cons g gs)
  obtain c optarg where g: "g = (c, optarg)" by (cases g)
  from Cons.prems g have c: "c \<noteq> OPT_HELP" "c \<noteq> OPT_VERSION"
    and rest: "OPT_HELP \<notin> fst ` set gs" "OPT_VERSION \<notin> fst ` set gs" by auto
  from switch_option_no_exit [OF c] obtain opt1 where
    1: "switch_option sops cfg c optarg opt die = Go opt1 (die \<or> c = CHR ''?'')" by blast
  from Cons.IH [OF rest] obtain opt' where
    "option_loop sops cfg gs opt1 (die \<or> c = CHR ''?'')
       = Go opt' ((die \<or> c = CHR ''?'') \<or> CHR ''?'' \<in> fst ` set gs)" by blast
  with 1 g have "option_loop sops cfg (g # gs) opt die
       = Go opt' (die \<or> CHR ''?'' \<in> fst ` set (g # gs))"
    by (simp add: disj_commute disj_left_commute eq_commute)
  then show ?case by blast
qed

lemma switch_option_minOverlap:
  assumes "switch_option sops cfg c optarg opt die = Go opt' die'" and "c \<noteq> CHR ''m''"
  shows "minOverlap opt' = minOverlap opt"
  using assms by (auto simp: switch_option_def Let_def split: if_splits)

lemma option_loop_minOverlap:
  assumes "option_loop sops cfg gs opt die = Go opt' die'" and "CHR ''m'' \<notin> fst ` set gs"
  shows "minOverlap opt' = minOverlap opt"
  using assms
proof (induction gs arbitrary: opt die)
  case Nil
  then show ?case by simp
next
  case (Cons g gs)
  obtain c optarg where g: "g = (c, optarg)" by (cases g)
  from Cons.prems g have c: "c \<noteq> CHR ''m''" and rest: "CHR ''m'' \<notin> fst ` set gs" by auto
  from Cons.prems(1) g obtain opt1 die1 where
    1: "switch_option sops cfg c optarg opt die = Go opt1 die1"
    and 2: "option_loop sops cfg gs opt1 die1 = Go opt' die'"
    by (auto split: parse_step.splits)
  from Cons.IH [OF 2 rest] switch_option_minOverlap [OF 1 c] show ?case by simp
qed

lemma length_one: "xs \<noteq> [] \<Longrightarrow> \<not> Suc 0 < length xs \<Longrightarrow> length xs = Suc 0"
  by (cases xs) auto

lemma parse_Parsed:
  assumes "parseAssembleOptions sops cfg gs positionals opt0 = Parsed opt"
  shows "\<exists>opt' die. option_loop sops cfg gs (opt0\<lparr>outFile := ''contigs.fa'', minOverlap := 0\<rparr>) False
            = Go opt' die
          \<and> opt = opt'\<lparr>asqgFile := hd positionals\<rparr> \<and> length positionals = 1"
  using assms
  by (auto simp: parseAssembleOptions_def Let_def length_one split: parse_step.splits if_splits)

lemma toy_parse:
  "parseAssembleOptions toy_sops toy_cfg toy_gs [''reads.asqg''] static_opt = Parsed toy_opt"
  by code_simp

lemma toy_main:
  "assembleMain toy_ops toy_sops toy_cfg toy_gs [''reads.asqg'']
     = Some \<lparr> exit_code = 0, console = [], pipeline = trace toy_final \<rparr>"
  by (simp add: assembleMain_def toy_parse toy_run)

text \<open>
  C7, as amended. Suppose the command line has no \<open>--help\<close> and no \<open>--version\<close>. If it has an
  unknown flag (\<open>getopt_long\<close> returned \<open>?\<close>), no positional argument, or more than one,
  the process exits with \<open>EXIT_FAILURE\<close>, which is not 0, and \<open>assemble\<close> is never called:
  no graph is loaded and no stage runs. What it has printed is, for a wrong number of
  positional arguments, "assemble: missing arguments" or "assemble: too many arguments",
  and in every case the line "Try `assemble --help' for more information." on the error
  stream. Otherwise, a run that completes prints nothing during parsing, runs the
  pipeline and returns 0.
\<close>

theorem usage_error_exits_before_pipeline:
  assumes "OPT_HELP \<notin> fst ` set gs" and "OPT_VERSION \<notin> fst ` set gs"
  shows "(CHR ''?'' \<in> fst ` set gs \<or> length positionals \<noteq> 1 \<longrightarrow>
            assembleMain ops sops cfg gs positionals
              = Some \<lparr> exit_code = EXIT_FAILURE,
                       console =
                         (if length positionals < 1
                          then [EvCerr (SUBPROGRAM @ '': missing arguments\<newline>'')]
                          else if 1 < length positionals
                          then [EvCerr (SUBPROGRAM @ '': too many arguments\<newline>'')]
                          else []) @ [EvCerr TRY_HELP],
                       pipeline = [] \<rparr>)
    \<and> EXIT_FAILURE \<noteq> 0
    \<and> (CHR ''?'' \<notin> fst ` set gs \<and> length positionals = 1 \<longrightarrow>
         (\<forall>r. assembleMain ops sops cfg gs positionals = Some r
               \<longrightarrow> exit_code r = 0 \<and> console r = [] \<and> pipeline r \<noteq> []))"
proof -
  from option_loop_no_exit [OF assms] obtain opt' where
    l: "option_loop sops cfg gs (static_opt\<lparr>outFile := ''contigs.fa'', minOverlap := 0\<rparr>) False
          = Go opt' (False \<or> CHR ''?'' \<in> fst ` set gs)" by blast
  have bad: "CHR ''?'' \<in> fst ` set gs \<or> length positionals \<noteq> 1 \<longrightarrow>
            assembleMain ops sops cfg gs positionals
              = Some \<lparr> exit_code = EXIT_FAILURE,
                       console =
                         (if length positionals < 1
                          then [EvCerr (SUBPROGRAM @ '': missing arguments\<newline>'')]
                          else if 1 < length positionals
                          then [EvCerr (SUBPROGRAM @ '': too many arguments\<newline>'')]
                          else []) @ [EvCerr TRY_HELP],
                       pipeline = [] \<rparr>"
  proof
    assume "CHR ''?'' \<in> fst ` set gs \<or> length positionals \<noteq> 1"
    then consider "length positionals < 1" | "1 < length positionals"
      | "length positionals = 1" "CHR ''?'' \<in> fst ` set gs" by linarith
    then show "assembleMain ops sops cfg gs positionals
              = Some \<lparr> exit_code = EXIT_FAILURE,
                       console =
                         (if length positionals < 1
                          then [EvCerr (SUBPROGRAM @ '': missing arguments\<newline>'')]
                          else if 1 < length positionals
                          then [EvCerr (SUBPROGRAM @ '': too many arguments\<newline>'')]
                          else []) @ [EvCerr TRY_HELP],
                       pipeline = [] \<rparr>"
    proof cases
      case 1
      with l show ?thesis by (simp add: assembleMain_def parseAssembleOptions_def)
    next
      case 2
      with l show ?thesis by (simp add: assembleMain_def parseAssembleOptions_def)
    next
      case 3
      with l show ?thesis by (simp add: assembleMain_def parseAssembleOptions_def)
    qed
  qed
  have good: "CHR ''?'' \<notin> fst ` set gs \<and> length positionals = 1 \<longrightarrow>
         (\<forall>r. assembleMain ops sops cfg gs positionals = Some r
               \<longrightarrow> exit_code r = 0 \<and> console r = [] \<and> pipeline r \<noteq> [])"
  proof (intro impI allI)
    fix r
    assume ok: "CHR ''?'' \<notin> fst ` set gs \<and> length positionals = 1"
      and main: "assembleMain ops sops cfg gs positionals = Some r"
    from ok l have "parseAssembleOptions sops cfg gs positionals static_opt
        = Parsed (opt'\<lparr>asqgFile := hd positionals\<rparr>)"
      by (simp add: parseAssembleOptions_def)
    with main obtain s where
      run: "assemble ops cfg (opt'\<lparr>asqgFile := hd positionals\<rparr>) = Some s"
      and r: "r = \<lparr> exit_code = 0, console = [], pipeline = trace s \<rparr>"
      by (auto simp: assembleMain_def bind_eq_Some_conv)
    from assemble_trace_nonempty [OF run] r
    show "exit_code r = 0 \<and> console r = [] \<and> pipeline r \<noteq> []" by simp
  qed
  from bad good show ?thesis by (simp add: EXIT_FAILURE_def)
qed

theorem usage_error_exits_before_pipeline_witness:
  "OPT_HELP \<notin> fst ` set [(CHR ''?'', None :: string option)]
   \<and> OPT_VERSION \<notin> fst ` set [(CHR ''?'', None :: string option)]
   \<and> assembleMain toy_ops toy_sops toy_cfg [(CHR ''?'', None)] [''reads.asqg'']
       = Some \<lparr> exit_code = 1, console = [EvCerr TRY_HELP], pipeline = [] \<rparr>"
proof -
  have h: "OPT_HELP \<notin> fst ` set [(CHR ''?'', None :: string option)]"
    and v: "OPT_VERSION \<notin> fst ` set [(CHR ''?'', None :: string option)]"
    by (simp_all add: OPT_HELP_def OPT_VERSION_def)
  from usage_error_exits_before_pipeline [OF h v, of "[''reads.asqg'']" toy_ops toy_sops toy_cfg] h v
  show ?thesis by (simp add: EXIT_FAILURE_def)
qed

text \<open>
  The claim as stated fails for an unknown flag followed by \<open>--help\<close>, as in
  \<^verbatim>\<open>assemble --bogus --help reads.asqg\<close>: the option loop notes the unknown flag in
  \<open>die\<close> and goes on, reaches \<open>--help\<close>, prints the usage text on the output stream and
  exits with \<open>EXIT_SUCCESS\<close>.
\<close>

theorem unknown_flag_then_help_exits_zero:
  "assembleMain toy_ops toy_sops toy_cfg [(CHR ''?'', None), (OPT_HELP, None)] [''reads.asqg'']
     = Some \<lparr> exit_code = 0, console = [EvCout (ASSEMBLE_USAGE_MESSAGE toy_cfg)], pipeline = [] \<rparr>"
  by (simp add: assembleMain_def parseAssembleOptions_def switch_option_def
      OPT_HELP_def OPT_VERSION_def OPT_VALIDATE_def EXIT_SUCCESS_def)

subsection \<open>Validation\<close>






subsection \<open>Snapshots\<close>

lemma snapshot_filter:
  "filter (\<lambda>e. is_snapshot e \<or> is_stage_op e) (front_events opt) = []"
  "filter (\<lambda>e. is_snapshot e \<or> is_stage_op e) (contain_events k1)
     = replicate k1 (EvVisit ContainRemove)"
  "filter (\<lambda>e. is_snapshot e \<or> is_stage_op e) (reduce_events opt)
     = EvVisit TransitiveReduction
       # (if bCorrectReads opt then [EvVisit ErrorCorrect, EvWriteASQG ''afterEC.asqg.gz''] else [])"
  "filter (\<lambda>e. is_snapshot e \<or> is_stage_op e) (remodel_events opt k2)
     = (if bRemodelGraph opt
        then [EvVisit Remodel, EvWriteASQG ''afterRM.asqg.gz'']
             @ replicate k2 (EvVisit ContainRemove) @ [EvVisit TransitiveReduction]
        else [])"
  "filter (\<lambda>e. is_snapshot e \<or> is_stage_op e) (trim_events opt)
     = replicate (nat (numTrimRounds opt)) (EvVisit Trim)"
  "filter (\<lambda>e. is_snapshot e \<or> is_stage_op e) (smooth_events opt)
     = (if bSmoothGraph opt then replicate 4 (EvVisit Smoothing) else [])"
  "filter (\<lambda>e. is_snapshot e \<or> is_stage_op e) (resolve_events opt k3)
     = (if 0 \<le> resolveSmallRepeatLen opt
        then replicate (Suc k3) (EvVisit (SmallRepeatResolve (resolveSmallRepeatLen opt)))
        else [])"
  "filter (\<lambda>e. is_snapshot e \<or> is_stage_op e) (finish_events cfg opt)
     = [EvWriteASQG ''postmod.asqg.gz'', EvSimplify]
       @ (if 0 < numBubbleRounds opt
          then replicate (nat (numBubbleRounds opt)) (EvVisit Bubble) @ [EvSimplify]
          else [])
       @ (if asqgOutfile opt \<noteq> [] then [EvWriteASQG (asqgOutfile opt)] else [])"
  by (simp_all add: segment_defs filter_concat concat_replicate_single is_snapshot_def
      is_stage_op_def is_stage_visitor_def)

lemma only_snapshot_filter:
  "filter is_snapshot (front_events opt) = []"
  "filter is_snapshot (contain_events k1) = []"
  "filter is_snapshot (reduce_events opt)
     = (if bCorrectReads opt then [EvWriteASQG ''afterEC.asqg.gz''] else [])"
  "filter is_snapshot (remodel_events opt k2)
     = (if bRemodelGraph opt then [EvWriteASQG ''afterRM.asqg.gz''] else [])"
  "filter is_snapshot (trim_events opt) = []"
  "filter is_snapshot (smooth_events opt) = []"
  "filter is_snapshot (resolve_events opt k3) = []"
  "filter is_snapshot (finish_events cfg opt)
     = EvWriteASQG ''postmod.asqg.gz''
       # (if asqgOutfile opt \<noteq> [] then [EvWriteASQG (asqgOutfile opt)] else [])"
  by (simp_all add: segment_defs concat_replicate_Nil filter_concat is_snapshot_def)

lemma finish_events_end:
  "\<exists>pre. finish_events cfg opt
     = pre @ (if asqgOutfile opt \<noteq> [] then [EvWriteASQG (asqgOutfile opt)] else [])
       @ [EvDeleteGraph]"
proof -
  have "finish_events cfg opt
     = ([EvWriteASQG ''postmod.asqg.gz'', EvCout ''Pre-simplify graph stats\<newline>'',
         EvVisit GraphStats, EvSimplify] @ bubble_events opt
        @ [EvCout ''\<newline>Final graph stats\<newline>'', EvVisit GraphStats]
        @ (if VALIDATE cfg then [EvValidationWarning ''SGA/assemble'', EvValidate] else [])
        @ [EvRenameVertices ''contig-'', EvWriteDot ''final.dot'', EvVisit (Fasta (outFile opt))])
       @ (if asqgOutfile opt \<noteq> [] then [EvWriteASQG (asqgOutfile opt)] else [])
       @ [EvDeleteGraph]"
    by (simp add: finish_events_def output_events_def)
  then show ?thesis by blast
qed

text \<open>
  C9, as amended. The snapshots a completed run writes are, in this order: afterEC.asqg.gz
  if and only if error correction is enabled, afterRM.asqg.gz if and only if remodelling
  is enabled, postmod.asqg.gz always, and the final graph if and only if an output graph
  file is configured. afterEC is written after the error-correction visitor, postmod
  after all the rounds of trimming, smoothing and small-repeat resolution and before
  compaction, and the final graph after compaction and bubble removal, as the last
  operation on the graph before it is deleted. afterRM is written directly after the
  remodel visitor, before the rounds of containment removal and the pass of transitive
  reduction with which the remodel stage ends: it is a snapshot of the remodelled graph,
  not of the graph the stage leaves. The second part of the statement lists the
  snapshots among all the stage operations of the run, in order; the trace is in
  lockstep, so the graph of a snapshot entry is the graph those operations had produced
  when it was written.
\<close>

theorem snapshot_checkpoints:
  assumes "assemble ops cfg opt = Some s"
  shows "filter is_snapshot (map snd (trace s))
            = (if bCorrectReads opt then [EvWriteASQG ''afterEC.asqg.gz''] else [])
              @ (if bRemodelGraph opt then [EvWriteASQG ''afterRM.asqg.gz''] else [])
              @ [EvWriteASQG ''postmod.asqg.gz'']
              @ (if asqgOutfile opt \<noteq> [] then [EvWriteASQG (asqgOutfile opt)] else [])
    \<and> (\<exists>k1 k2 k3. filter (\<lambda>e. is_snapshot e \<or> is_stage_op e) (map snd (trace s))
            = replicate k1 (EvVisit ContainRemove)
              @ [EvVisit TransitiveReduction]
              @ (if bCorrectReads opt
                 then [EvVisit ErrorCorrect, EvWriteASQG ''afterEC.asqg.gz''] else [])
              @ (if bRemodelGraph opt
                 then [EvVisit Remodel, EvWriteASQG ''afterRM.asqg.gz'']
                      @ replicate k2 (EvVisit ContainRemove) @ [EvVisit TransitiveReduction]
                 else [])
              @ replicate (nat (numTrimRounds opt)) (EvVisit Trim)
              @ (if bSmoothGraph opt then replicate 4 (EvVisit Smoothing) else [])
              @ (if 0 \<le> resolveSmallRepeatLen opt
                 then replicate (Suc k3) (EvVisit (SmallRepeatResolve (resolveSmallRepeatLen opt)))
                 else [])
              @ [EvWriteASQG ''postmod.asqg.gz'', EvSimplify]
              @ (if 0 < numBubbleRounds opt
                 then replicate (nat (numBubbleRounds opt)) (EvVisit Bubble) @ [EvSimplify]
                 else [])
              @ (if asqgOutfile opt \<noteq> [] then [EvWriteASQG (asqgOutfile opt)] else []))
    \<and> (\<exists>pre. map snd (trace s)
            = pre @ (if asqgOutfile opt \<noteq> [] then [EvWriteASQG (asqgOutfile opt)] else [])
              @ [EvDeleteGraph])
    \<and> lockstep ops (trace s)"
proof -
  from assemble_events [OF assms(1)] obtain k1 k2 k3 where
    e: "evs s = pipeline_events cfg opt k1 k2 k3" by blast
  then have "filter is_snapshot (map snd (trace s))
            = (if bCorrectReads opt then [EvWriteASQG ''afterEC.asqg.gz''] else [])
              @ (if bRemodelGraph opt then [EvWriteASQG ''afterRM.asqg.gz''] else [])
              @ [EvWriteASQG ''postmod.asqg.gz'']
              @ (if asqgOutfile opt \<noteq> [] then [EvWriteASQG (asqgOutfile opt)] else [])"
    by (simp add: evs_def [symmetric] pipeline_events_def only_snapshot_filter)
  moreover
  from e have "filter (\<lambda>e. is_snapshot e \<or> is_stage_op e) (map snd (trace s))
            = replicate k1 (EvVisit ContainRemove)
              @ [EvVisit TransitiveReduction]
              @ (if bCorrectReads opt
                 then [EvVisit ErrorCorrect, EvWriteASQG ''afterEC.asqg.gz''] else [])
              @ (if bRemodelGraph opt
                 then [EvVisit Remodel, EvWriteASQG ''afterRM.asqg.gz'']
                      @ replicate k2 (EvVisit ContainRemove) @ [EvVisit TransitiveReduction]
                 else [])
              @ replicate (nat (numTrimRounds opt)) (EvVisit Trim)
              @ (if bSmoothGraph opt then replicate 4 (EvVisit Smoothing) else [])
              @ (if 0 \<le> resolveSmallRepeatLen opt
                 then replicate (Suc k3) (EvVisit (SmallRepeatResolve (resolveSmallRepeatLen opt)))
                 else [])
              @ [EvWriteASQG ''postmod.asqg.gz'', EvSimplify]
              @ (if 0 < numBubbleRounds opt
                 then replicate (nat (numBubbleRounds opt)) (EvVisit Bubble) @ [EvSimplify]
                 else [])
              @ (if asqgOutfile opt \<noteq> [] then [EvWriteASQG (asqgOutfile opt)] else [])"
    by (simp add: evs_def [symmetric] pipeline_events_def snapshot_filter)
  moreover
  from finish_events_end [of cfg opt] obtain p where
    "finish_events cfg opt
     = p @ (if asqgOutfile opt \<noteq> [] then [EvWriteASQG (asqgOutfile opt)] else [])
       @ [EvDeleteGraph]" by blast
  with e have "map snd (trace s)
     = (front_events opt @ contain_events k1 @ reduce_events opt @ remodel_events opt k2
        @ trim_events opt @ smooth_events opt @ resolve_events opt k3 @ p)
       @ (if asqgOutfile opt \<noteq> [] then [EvWriteASQG (asqgOutfile opt)] else [])
       @ [EvDeleteGraph]"
    by (simp add: evs_def [symmetric] pipeline_events_def)
  moreover have "lockstep ops (trace s)" using assms by (rule assemble_lockstep)
  ultimately show ?thesis by blast
qed

theorem snapshot_checkpoints_witness:
  "assemble toy_ops toy_cfg toy_opt = Some toy_final
   \<and> filter is_snapshot (map snd (trace toy_final))
       = [EvWriteASQG ''afterEC.asqg.gz'', EvWriteASQG ''afterRM.asqg.gz'',
          EvWriteASQG ''postmod.asqg.gz'', EvWriteASQG ''final.asqg'']
   \<and> lockstep toy_ops (trace toy_final)"
  using snapshot_checkpoints [of toy_ops toy_cfg toy_opt toy_final] toy_run
  by (simp add: toy_opt_def)

text \<open>
  The claim as stated fails on the run of the toy instance, which has remodelling
  enabled: when afterRM.asqg.gz is written the remodel stage has not completed. The
  snapshot is taken on the graph \<open>(1, 1)\<close>, which still has a vertex flagged contained,
  and the containment removal and the transitive reduction of the stage come after it.
\<close>

theorem remodel_snapshot_before_stage_end:
  "assemble toy_ops toy_cfg toy_opt = Some toy_final
   \<and> bRemodelGraph toy_opt
   \<and> ((1, 1), EvWriteASQG ''afterRM.asqg.gz'') \<in> set (trace toy_final)
   \<and> hasContainment toy_ops (1, 1)
   \<and> take 3 (events_after (EvWriteASQG ''afterRM.asqg.gz'') (map snd (trace toy_final)))
       = [EvCout ''Removing contained reads\<newline>'', EvVisit ContainRemove,
          EvVisit TransitiveReduction]"
  using toy_run
  by (simp add: toy_opt_def toy_final_def toy_ops_def events_after_def)

subsection \<open>The minimum overlap\<close>

lemma load_filter:
  "filter is_load (front_events opt) = [EvLoadASQG (asqgFile opt) (minOverlap opt) True]"
  "filter is_load (contain_events k1) = []"
  "filter is_load (reduce_events opt) = []"
  "filter is_load (remodel_events opt k2) = []"
  "filter is_load (trim_events opt) = []"
  "filter is_load (smooth_events opt) = []"
  "filter is_load (resolve_events opt k3) = []"
  "filter is_load (finish_events cfg opt) = []"
  by (simp_all add: segment_defs concat_replicate_Nil filter_concat is_load_def)

lemma filter_by_length_zero: "filter_by_length 0 lens = lens"
  by (simp add: filter_by_length_def keeps_overlap_def)

text \<open>
  C10. If \<open>--min-overlap\<close> is not on the command line (\<open>getopt_long\<close> never returns
  \<open>m\<close>), the options that parsing yields have minimum overlap 0, and with that threshold
  the length filter of the loader keeps every overlap record. A run that reaches the
  pipeline starts by loading the graph with \<open>loadASQG\<close> from the ASQG file named on the
  command line, with minimum overlap 0; that is the only load of the run, and the graph
  it returns is the graph the pipeline then works on: the trace starts with it and is in
  lockstep.
\<close>

theorem min_overlap_defaults_to_zero:
  assumes "CHR ''m'' \<notin> fst ` set gs"
  shows "(\<forall>opt. parseAssembleOptions sops cfg gs positionals opt0 = Parsed opt \<longrightarrow>
            minOverlap opt = 0 \<and> (\<forall>lens. filter_by_length (minOverlap opt) lens = lens))
    \<and> (\<forall>r. assembleMain ops sops cfg gs positionals = Some r \<longrightarrow> pipeline r \<noteq> [] \<longrightarrow>
          hd (pipeline r) = (loadASQG ops (hd positionals) 0 True,
                              EvLoadASQG (hd positionals) 0 True)
          \<and> filter is_load (map snd (pipeline r)) = [EvLoadASQG (hd positionals) 0 True]
          \<and> lockstep ops (pipeline r))"
proof (intro conjI allI impI)
  fix opt assume p: "parseAssembleOptions sops cfg gs positionals opt0 = Parsed opt"
  from parse_Parsed [OF p] obtain opt' die where
    l: "option_loop sops cfg gs (opt0\<lparr>outFile := ''contigs.fa'', minOverlap := 0\<rparr>) False
          = Go opt' die"
    and o: "opt = opt'\<lparr>asqgFile := hd positionals\<rparr>" by blast
  from option_loop_minOverlap [OF l assms] o show m: "minOverlap opt = 0" by simp
  fix lens show "filter_by_length (minOverlap opt) lens = lens"
    unfolding m by (rule filter_by_length_zero)
next
  fix r assume main: "assembleMain ops sops cfg gs positionals = Some r" and ran: "pipeline r \<noteq> []"
  from main ran obtain opt s where
    p: "parseAssembleOptions sops cfg gs positionals static_opt = Parsed opt"
    and run: "assemble ops cfg opt = Some s" and r: "pipeline r = trace s"
    by (auto simp: assembleMain_def bind_eq_Some_conv split: parse_result.splits)
  from parse_Parsed [OF p] obtain opt' die where
    l: "option_loop sops cfg gs (static_opt\<lparr>outFile := ''contigs.fa'', minOverlap := 0\<rparr>) False
          = Go opt' die"
    and o: "opt = opt'\<lparr>asqgFile := hd positionals\<rparr>" by blast
  from option_loop_minOverlap [OF l assms] o have m: "minOverlap opt = 0" by simp
  from o have f: "asqgFile opt = hd positionals" by simp
  from assemble_first_entry [OF run] m f r
  show "hd (pipeline r) = (loadASQG ops (hd positionals) 0 True, EvLoadASQG (hd positionals) 0 True)"
    by auto
  from assemble_events [OF run] obtain k1 k2 k3 where
    "evs s = pipeline_events cfg opt k1 k2 k3" by blast
  then have "filter is_load (map snd (trace s)) = [EvLoadASQG (asqgFile opt) (minOverlap opt) True]"
    by (simp add: evs_def [symmetric] pipeline_events_def load_filter)
  with m f r show "filter is_load (map snd (pipeline r)) = [EvLoadASQG (hd positionals) 0 True]"
    by simp
  from assemble_lockstep [OF run] r show "lockstep ops (pipeline r)" by simp
qed

theorem min_overlap_defaults_to_zero_witness:
  "CHR ''m'' \<notin> fst ` set tally_gs
   \<and> parseAssembleOptions toy_sops toy_cfg tally_gs [''reads.asqg''] static_opt = Parsed tally_opt
   \<and> minOverlap tally_opt = 0
   \<and> filter_by_length (minOverlap tally_opt) [0, 1, 45] = [0, 1, 45]
   \<and> assembleMain tally_ops toy_sops toy_cfg tally_gs [''reads.asqg'']
       = Some \<lparr> exit_code = 0, console = [], pipeline = trace tally_final \<rparr>
   \<and> hd (trace tally_final)
       = (loadASQG tally_ops ''reads.asqg'' 0 True, EvLoadASQG ''reads.asqg'' 0 True)
   \<and> filter is_load (map snd (trace tally_final)) = [EvLoadASQG ''reads.asqg'' 0 True]
   \<and> lockstep tally_ops (trace tally_final)
   \<and> source (graph tally_final) = ''reads.asqg''
   \<and> threshold (graph tally_final) = 0"
proof -
  have m: "CHR ''m'' \<notin> fst ` set tally_gs"
    by (simp add: tally_gs_def)
  have ne: "trace tally_final \<noteq> []" by (simp add: tally_final_def)
  have g: "source (graph tally_final) = ''reads.asqg''" "threshold (graph tally_final) = 0"
    by (simp_all add: tally_final_def)
  from min_overlap_defaults_to_zero
         [OF m, of toy_sops toy_cfg "[''reads.asqg'']" static_opt tally_ops]
    tally_parse tally_main m ne g
  show ?thesis by (simp add: filter_by_length_def keeps_overlap_def)
qed

end
